theory Spec2Isabelle
  imports Main "HOL-Library.Word" "HOL-Library.Monad_Syntax"
begin

unbundle bit_operations_syntax

section \<open>Data model\<close>

type_synonym u8 = "8 word"
type_synonym u32 = "32 word"
type_synonym u64 = "64 word"

text \<open>Bucket size definitions of \<^verbatim>\<open>vite.h\<close>.\<close>

abbreviation BUCKET_SIZE :: nat where "BUCKET_SIZE \<equiv> 256"
abbreviation BUCKET_SIZE_U8 :: nat where "BUCKET_SIZE_U8 \<equiv> 32"
abbreviation BUCKET_SIZE_U64 :: nat where "BUCKET_SIZE_U64 \<equiv> 4"

text \<open>
  The \<^verbatim>\<open>Vitemap\<close> struct. A pointer field to a \<^verbatim>\<open>calloc\<close>ed buffer is modelled by
  the contents of that buffer: the three buffers are separate allocations, so they do not alias.
\<close>

record Vitemap =
  input :: "u8 list"
  max_size :: u32
  num_buckets :: u32
  "output" :: "u8 list"
  max_compressed_size :: u32
  output_size :: u32
  helper_bucket :: "u8 list"

section \<open>Memory and vector primitives\<close>

text \<open>
  A buffer is the list of its bytes and a pointer into it is an offset. An access that leaves the
  allocation is undefined behaviour in C; the model returns \<open>None\<close> there. Vector registers
  (\<^verbatim>\<open>__m256i\<close>, \<^verbatim>\<open>__m512i\<close>) are modelled by their little-endian memory image,
  a list of 32 or 64 bytes.
\<close>

definition loadu :: "u8 list \<Rightarrow> nat \<Rightarrow> nat \<Rightarrow> u8 list option" where
  "loadu mem p n = (if p + n \<le> length mem then Some (take n (drop p mem)) else None)"

definition storeu :: "u8 list \<Rightarrow> nat \<Rightarrow> u8 list \<Rightarrow> u8 list option" where
  "storeu mem p bs =
     (if p + length bs \<le> length mem
      then Some (take p mem @ bs @ drop (p + length bs) mem) else None)"

definition read_u8 :: "u8 list \<Rightarrow> nat \<Rightarrow> u8 option" where
  "read_u8 mem p = (if p < length mem then Some (mem ! p) else None)"

text \<open>Little-endian integer loads and stores (the target is x86-64).\<close>

definition le_word :: "u8 list \<Rightarrow> 'a::len word" where
  "le_word bs = word_rcat (rev bs)"

definition le_bytes :: "nat \<Rightarrow> 'a::len word \<Rightarrow> u8 list" where
  "le_bytes n w = map (\<lambda>k. ucast (drop_bit (8 * k) w)) [0..<n]"

definition load_u64 :: "u8 list \<Rightarrow> nat \<Rightarrow> u64 option" where
  "load_u64 mem p = map_option le_word (loadu mem p 8)"

definition load_u32 :: "u8 list \<Rightarrow> nat \<Rightarrow> u32 option" where
  "load_u32 mem p = map_option le_word (loadu mem p 4)"

definition store_u32 :: "u8 list \<Rightarrow> nat \<Rightarrow> u32 \<Rightarrow> u8 list option" where
  "store_u32 mem p w = storeu mem p (le_bytes 4 w)"

text \<open>\<^verbatim>\<open>_mm_popcnt_u64\<close>: the number of set bits of a 64-bit value.\<close>

definition mm_popcnt_u64 :: "u64 \<Rightarrow> nat" where
  "mm_popcnt_u64 w = length (filter (bit w) [0..<64])"

text \<open>The 64-bit lanes of a vector.\<close>

definition epi64_lanes :: "u8 list \<Rightarrow> u64 list" where
  "epi64_lanes v = map (\<lambda>i. le_word (take 8 (drop (8 * i) v))) [0..<length v div 8]"

text \<open>
  \<^verbatim>\<open>_mm512_maskz_compress_epi8\<close>: the bytes of the vector that the mask selects, packed
  at the low end in order; the remaining bytes are zero.
\<close>

definition mm512_maskz_compress_epi8 :: "u64 \<Rightarrow> u8 list \<Rightarrow> u8 list" where
  "mm512_maskz_compress_epi8 k a =
     (let sel = map (\<lambda>j. a ! j) (filter (bit k) [0..<64])
      in sel @ replicate (64 - length sel) 0)"

definition mm256_or_si256 :: "u8 list \<Rightarrow> u8 list \<Rightarrow> u8 list" where
  "mm256_or_si256 a b = map2 (OR) a b"

definition mm256_xor_si256 :: "u8 list \<Rightarrow> u8 list \<Rightarrow> u8 list" where
  "mm256_xor_si256 a b = map2 (XOR) a b"

definition mm256_set1_epi8 :: "u8 \<Rightarrow> u8 list" where
  "mm256_set1_epi8 b = replicate 32 b"

definition mm256_setzero_si256 :: "u8 list" where
  "mm256_setzero_si256 = replicate 32 0"

section \<open>Lookup tables\<close>

text \<open>
  \<^verbatim>\<open>bit_lookup[i][i / 64] = 1ULL << (i % 64)\<close>, all other lanes zero; \<open>bit_lookup_row\<close>
  is row \<open>i\<close> as \<^verbatim>\<open>_mm256_loadu_si256\<close> reads it.
\<close>

definition bit_lookup :: "nat \<Rightarrow> u64 list" where
  "bit_lookup i = (replicate BUCKET_SIZE_U64 0)[i div 64 := push_bit (i mod 64) 1]"

definition bit_lookup_row :: "nat \<Rightarrow> u8 list" where
  "bit_lookup_row i = concat (map (le_bytes 8) (bit_lookup i))"

text \<open>\<^verbatim>\<open>indices[i] = i\<close>.\<close>

definition indices :: "u8 list" where
  "indices = map of_nat [0..<BUCKET_SIZE]"

section \<open>Bit primitives\<close>

text \<open>
  \<^verbatim>\<open>popcount_256\<close>: per-lane population counts, then the two 128-bit halves are added and
  the two 64-bit halves of the sum are added; the low 64 bits are returned.
\<close>

definition popcount_256 :: "u8 list \<Rightarrow> nat \<Rightarrow> nat option" where
  "popcount_256 mem ptr = do {
     vec \<leftarrow> loadu mem ptr 32;
     let popcnt = map (\<lambda>l. (of_nat (mm_popcnt_u64 l) :: u64)) (epi64_lanes vec);
     let sum = [popcnt ! 0 + popcnt ! 2, popcnt ! 1 + popcnt ! 3];
     let sum = [sum ! 0 + sum ! 1, sum ! 1 + sum ! 0];
     Some (unat (sum ! 0))
   }"

text \<open>
  \<^verbatim>\<open>extract_and_compact_256\<close>: for each of the four lanes a full 64-byte store at the
  destination cursor, which then advances by the lane's population count only.
\<close>

function extract_loop :: "nat \<Rightarrow> u8 list \<Rightarrow> nat \<Rightarrow> nat \<Rightarrow> u8 list \<Rightarrow> nat \<Rightarrow> u8 list option" where
  "extract_loop i smem src moving_indices dmem dst =
     (if i < BUCKET_SIZE_U64 then do {
        indices_vector \<leftarrow> loadu indices moving_indices 64;
        mask \<leftarrow> load_u64 smem src;
        dmem' \<leftarrow> storeu dmem dst (mm512_maskz_compress_epi8 mask indices_vector);
        extract_loop (i + 1) smem (src + 8) (moving_indices + 64) dmem' (dst + mm_popcnt_u64 mask)
      } else Some dmem)"
  by pat_completeness auto
termination
  by (relation "measure (\<lambda>(i, smem, src, moving_indices, dmem, dst). BUCKET_SIZE_U64 - i)") auto

definition extract_and_compact_256 :: "u8 list \<Rightarrow> nat \<Rightarrow> u8 list \<Rightarrow> nat \<Rightarrow> u8 list option" where
  "extract_and_compact_256 smem src dmem dst = extract_loop 0 smem src 0 dmem dst"

text \<open>
  \<^verbatim>\<open>expand_and_scatter_256\<close>: the OR of the table rows of the first \<open>bucket_size\<close>
  source bytes, four per iteration and then one per iteration, stored as 32 bytes.
\<close>

function expand_loop4 :: "u8 list \<Rightarrow> nat \<Rightarrow> nat \<Rightarrow> nat \<Rightarrow> u8 list \<Rightarrow> (nat \<times> u8 list) option" where
  "expand_loop4 smem src bucket_size i result =
     (if i + 4 \<le> bucket_size then do {
        s0 \<leftarrow> read_u8 smem (src + i);
        s1 \<leftarrow> read_u8 smem (src + i + 1);
        s2 \<leftarrow> read_u8 smem (src + i + 2);
        s3 \<leftarrow> read_u8 smem (src + i + 3);
        let result = mm256_or_si256 result (bit_lookup_row (unat s0));
        let result = mm256_or_si256 result (bit_lookup_row (unat s1));
        let result = mm256_or_si256 result (bit_lookup_row (unat s2));
        let result = mm256_or_si256 result (bit_lookup_row (unat s3));
        expand_loop4 smem src bucket_size (i + 4) result
      } else Some (i, result))"
  by pat_completeness auto
termination
  by (relation "measure (\<lambda>(smem, src, bucket_size, i, result). bucket_size - i)") auto

function expand_loop1 :: "u8 list \<Rightarrow> nat \<Rightarrow> nat \<Rightarrow> nat \<Rightarrow> u8 list \<Rightarrow> u8 list option" where
  "expand_loop1 smem src bucket_size i result =
     (if i < bucket_size then do {
        s \<leftarrow> read_u8 smem (src + i);
        expand_loop1 smem src bucket_size (i + 1) (mm256_or_si256 result (bit_lookup_row (unat s)))
      } else Some result)"
  by pat_completeness auto
termination
  by (relation "measure (\<lambda>(smem, src, bucket_size, i, result). bucket_size - i)") auto

definition expand_and_scatter_256 :: "u8 list \<Rightarrow> nat \<Rightarrow> nat \<Rightarrow> u8 list \<Rightarrow> nat \<Rightarrow> u8 list option" where
  "expand_and_scatter_256 smem src bucket_size dmem dst = do {
     (i, result) \<leftarrow> expand_loop4 smem src bucket_size 0 mm256_setzero_si256;
     result \<leftarrow> expand_loop1 smem src bucket_size i result;
     storeu dmem dst result
   }"

text \<open>\<^verbatim>\<open>invert_256\<close>: the 32 source bytes XOR all-ones, stored at the destination.\<close>

definition invert_256 :: "u8 list \<Rightarrow> nat \<Rightarrow> u8 list \<Rightarrow> nat \<Rightarrow> u8 list option" where
  "invert_256 smem src dmem dst = do {
     src_vec \<leftarrow> loadu smem src 32;
     let all_ones = mm256_set1_epi8 0xFF;
     let inverted = mm256_xor_si256 src_vec all_ones;
     storeu dmem dst inverted
   }"

section \<open>Context creation\<close>

text \<open>
  \<^verbatim>\<open>calloc\<close> either fails or returns a zeroed buffer; which requests succeed is a
  parameter. \<open>sizeof_Vitemap\<close> is the size of the struct on x86-64.
\<close>

definition calloc :: "(nat \<Rightarrow> bool) \<Rightarrow> nat \<Rightarrow> u8 list option" where
  "calloc avail n = (if avail n then Some (replicate n 0) else None)"

abbreviation sizeof_Vitemap :: nat where "sizeof_Vitemap \<equiv> 40"

definition vitemap_create :: "(nat \<Rightarrow> bool) \<Rightarrow> u32 \<Rightarrow> Vitemap option" where
  "vitemap_create avail size' = do {
     let full_buckets = size' div 32;
     let remaining_bytes = size' mod 32;
     let num_buckets = full_buckets + (if remaining_bytes > 0 then 1 else 0);
     _ \<leftarrow> calloc avail sizeof_Vitemap;
     let max_size = num_buckets * 32;
     let max_compressed_size = 4 + max_size + num_buckets * 32;
     case calloc avail (unat max_size) of None \<Rightarrow> None | Some inp \<Rightarrow>
     (case calloc avail (unat (max_compressed_size + 32)) of None \<Rightarrow> None | Some outp \<Rightarrow>
     (case calloc avail BUCKET_SIZE_U8 of None \<Rightarrow> None | Some helper \<Rightarrow>
       Some \<lparr> input = inp, max_size = max_size, num_buckets = num_buckets,
              output = outp, max_compressed_size = max_compressed_size,
              output_size = 0, helper_bucket = helper \<rparr>))
   }"

section \<open>Compression\<close>

text \<open>
  The body of the loop of \<^verbatim>\<open>vitemap_compress\<close> for the bucket at input cursor \<open>inp\<close>
  and output cursor \<open>outp\<close>. \<open>count\<close> is at most 256, so \<open>BUCKET_SIZE - count\<close> does not
  wrap; the header byte is the value truncated to 8 bits.
\<close>

definition compress_bucket :: "Vitemap \<Rightarrow> nat \<Rightarrow> nat \<Rightarrow> u32 \<Rightarrow> (Vitemap \<times> nat \<times> u32) option" where
  "compress_bucket vm inp outp result_size = do {
     count \<leftarrow> popcount_256 (input vm) inp;
     if count < BUCKET_SIZE_U8 then do {
       out1 \<leftarrow> storeu (output vm) outp [of_nat count];
       out2 \<leftarrow> extract_and_compact_256 (input vm) inp out1 (outp + 1);
       Some (vm\<lparr>output := out2\<rparr>, outp + 1 + count, result_size + of_nat (1 + count))
     } else if BUCKET_SIZE - count < BUCKET_SIZE_U8 then do {
       out1 \<leftarrow> storeu (output vm) outp [of_nat (BUCKET_SIZE - count) OR 0x40];
       helper \<leftarrow> invert_256 (input vm) inp (helper_bucket vm) 0;
       out2 \<leftarrow> extract_and_compact_256 helper 0 out1 (outp + 1);
       Some (vm\<lparr>output := out2, helper_bucket := helper\<rparr>,
             outp + 1 + (BUCKET_SIZE - count),
             result_size + of_nat (1 + BUCKET_SIZE - count))
     } else do {
       out1 \<leftarrow> storeu (output vm) outp [of_nat BUCKET_SIZE_U8 OR 0x80];
       chunk \<leftarrow> loadu (input vm) inp BUCKET_SIZE_U8;
       out2 \<leftarrow> storeu out1 (outp + 1) chunk;
       Some (vm\<lparr>output := out2\<rparr>, outp + 1 + BUCKET_SIZE_U8,
             result_size + of_nat (1 + BUCKET_SIZE_U8))
     }
   }"

function compress_loop :: "nat \<Rightarrow> nat \<Rightarrow> Vitemap \<Rightarrow> nat \<Rightarrow> nat \<Rightarrow> u32 \<Rightarrow> (Vitemap \<times> u32) option" where
  "compress_loop n bucket vm inp outp result_size =
     (if bucket < n then do {
        (vm', outp', result_size') \<leftarrow> compress_bucket vm inp outp result_size;
        compress_loop n (bucket + 1) vm' (inp + BUCKET_SIZE_U8) outp' result_size'
      } else Some (vm, result_size))"
  by pat_completeness auto
termination
  by (relation "measure (\<lambda>(n, bucket, vm, inp, outp, result_size). n - bucket)") auto

definition vitemap_compress :: "Vitemap \<Rightarrow> u32 \<Rightarrow> (Vitemap \<times> u32) option" where
  "vitemap_compress vm size' = do {
     out0 \<leftarrow> store_u32 (output vm) 0 size';
     compress_loop (unat (num_buckets vm)) 0 (vm\<lparr>output := out0\<rparr>) 0 4 4
   }"

section \<open>Decompression\<close>

definition vitemap_extract_decompressed_sizes :: "u8 list \<Rightarrow> (u32 \<times> u32) option" where
  "vitemap_extract_decompressed_sizes compressed_data = do {
     data_size \<leftarrow> load_u32 compressed_data 0;
     let full_buckets = data_size div 32;
     let remaining_bytes = data_size mod 32;
     let buffer_size = (full_buckets + (if remaining_bytes > 0 then 1 else 0)) * 32;
     Some (data_size, buffer_size)
   }"

text \<open>
  The loop of \<^verbatim>\<open>vitemap_decompress\<close>; \<open>cd\<close> and \<open>dd\<close> are the cursors into the compressed
  and the decompressed buffer, \<open>endp\<close> is \<^verbatim>\<open>compressed_data + size\<close>. The \<^verbatim>\<open>switch\<close>
  has no case for category 3 and no default.
\<close>

function decompress_loop :: "u8 list \<Rightarrow> nat \<Rightarrow> nat \<Rightarrow> u8 list \<Rightarrow> nat \<Rightarrow> u8 list option" where
  "decompress_loop compressed_data endp cd decompressed_data dd =
     (if cd < endp then do {
        hdr \<leftarrow> read_u8 compressed_data cd;
        let bucket_size = hdr AND 0x3F;
        let category = drop_bit 6 hdr;
        let cd = cd + 1;
        decompressed_data \<leftarrow>
          (if category = 0 then
             expand_and_scatter_256 compressed_data cd (unat bucket_size) decompressed_data dd
           else if category = 1 then do {
             d1 \<leftarrow> expand_and_scatter_256 compressed_data cd (unat bucket_size) decompressed_data dd;
             src_vec \<leftarrow> loadu d1 dd 32;
             let all_ones = mm256_set1_epi8 0xFF;
             let inverted = mm256_xor_si256 src_vec all_ones;
             storeu d1 dd inverted
           } else if category = 2 then do {
             bytes \<leftarrow> loadu compressed_data cd BUCKET_SIZE_U8;
             storeu decompressed_data dd bytes
           } else Some decompressed_data);
        decompress_loop compressed_data endp (cd + unat bucket_size) decompressed_data
          (dd + BUCKET_SIZE_U8)
      } else Some decompressed_data)"
  by pat_completeness auto
termination
  by (relation "measure (\<lambda>(compressed_data, endp, cd, decompressed_data, dd). endp - cd)") auto

definition vitemap_decompress :: "u8 list \<Rightarrow> u32 \<Rightarrow> u8 list \<Rightarrow> u8 list option" where
  "vitemap_decompress compressed_data size' decompressed_data =
     decompress_loop compressed_data (unat size') 4 decompressed_data 0"

section \<open>The wire format as the specification words it\<close>

text \<open>
  Bit position \<open>p\<close> of a chunk is bit \<open>p mod 8\<close> (least significant first) of byte
  \<open>p div 8\<close>.
\<close>

definition chunk_bit :: "u8 list \<Rightarrow> nat \<Rightarrow> bool" where
  "chunk_bit chunk p = bit (chunk ! (p div 8)) (p mod 8)"

definition one_positions :: "u8 list \<Rightarrow> nat list" where
  "one_positions chunk = filter (chunk_bit chunk) [0..<BUCKET_SIZE]"

definition zero_positions :: "u8 list \<Rightarrow> nat list" where
  "zero_positions chunk = filter (\<lambda>p. \<not> chunk_bit chunk p) [0..<BUCKET_SIZE]"

definition popcount :: "u8 list \<Rightarrow> nat" where
  "popcount chunk = length (one_positions chunk)"

text \<open>Header byte: bits 7..6 are the category tag, bits 5..0 the payload length.\<close>

definition header_byte :: "nat \<Rightarrow> nat \<Rightarrow> u8" where
  "header_byte category len = push_bit 6 (of_nat category) OR of_nat len"

text \<open>The classifier rule of the specification (section 4.2) and the record it selects.\<close>

definition chunk_record :: "u8 list \<Rightarrow> u8 list" where
  "chunk_record chunk =
     (let c = popcount chunk in
      if c < 32 then header_byte 0 c # map of_nat (one_positions chunk)
      else if 256 - c < 32 then header_byte 1 (256 - c) # map of_nat (zero_positions chunk)
      else header_byte 2 32 # chunk)"

text \<open>The \<open>n\<close> consecutive 32-byte chunks of a buffer.\<close>

definition chunk_at :: "u8 list \<Rightarrow> nat \<Rightarrow> u8 list" where
  "chunk_at buf b = take BUCKET_SIZE_U8 (drop (BUCKET_SIZE_U8 * b) buf)"

definition chunks :: "u8 list \<Rightarrow> nat \<Rightarrow> u8 list list" where
  "chunks buf n = map (chunk_at buf) [0..<n]"

text \<open>The frame: the little-endian size prefix, then one record per chunk in input order.\<close>

definition frame :: "u32 \<Rightarrow> u8 list list \<Rightarrow> u8 list" where
  "frame n cs = le_bytes 4 n @ concat (map chunk_record cs)"

text \<open>
  A context as \<^verbatim>\<open>vitemap_create\<close> builds it when none of its 32-bit size computations
  wraps: the buffers have the allocated lengths.
\<close>

definition vm_wf :: "Vitemap \<Rightarrow> bool" where
  "vm_wf vm \<longleftrightarrow>
     unat (max_size vm) = 32 * unat (num_buckets vm) \<and>
     unat (max_compressed_size vm) = 4 + 64 * unat (num_buckets vm) \<and>
     length (input vm) = unat (max_size vm) \<and>
     length (output vm) = unat (max_compressed_size vm) + 32 \<and>
     length (helper_bucket vm) = 32"

text \<open>The valid prefix of the output buffer after a compress call that returned its length.\<close>

definition compressed_frame :: "(Vitemap \<times> u32) option \<Rightarrow> u8 list option" where
  "compressed_frame r = map_option (\<lambda>(vm, n). take (unat n) (output vm)) r"

text \<open>
  The context \<^verbatim>\<open>vitemap_create(32)\<close> returns, with the 32-byte buffer \<open>x\<close> written
  into its input, as the tests of the repository set it up; and the context of
  \<^verbatim>\<open>vitemap_create(64)\<close> with 64 bytes written.
\<close>

definition context_32 :: "u8 list \<Rightarrow> Vitemap" where
  "context_32 x = \<lparr> input = x, max_size = 32, num_buckets = 1, output = replicate 100 0,
     max_compressed_size = 68, output_size = 0, helper_bucket = replicate 32 0 \<rparr>"

definition context_64 :: "u8 list \<Rightarrow> Vitemap" where
  "context_64 x = \<lparr> input = x, max_size = 64, num_buckets = 2, output = replicate 164 0,
     max_compressed_size = 132, output_size = 0, helper_bucket = replicate 32 0 \<rparr>"

section \<open>Auxiliary notions for the proofs\<close>

text \<open>The set positions of 64-bit lane \<open>i\<close> of a chunk, and those of lanes \<open>i\<close> to 3.\<close>

definition lane_positions :: "u8 list \<Rightarrow> nat \<Rightarrow> nat list" where
  "lane_positions v i = filter (chunk_bit v) [64 * i..<64 * i + 64]"

definition lanes_from :: "u8 list \<Rightarrow> nat \<Rightarrow> nat list" where
  "lanes_from v i = filter (chunk_bit v) [64 * i..<BUCKET_SIZE]"

text \<open>
  A 32-byte vector whose set bits are exactly the positions in \<open>S\<close>, and the positions that
  the source bytes \<open>a\<close> to \<open>b - 1\<close> of a payload name.
\<close>

definition scattered :: "u8 list \<Rightarrow> nat set \<Rightarrow> bool" where
  "scattered R S \<longleftrightarrow> length R = 32 \<and> (\<forall>p<256. chunk_bit R p \<longleftrightarrow> p \<in> S)"

definition read_positions :: "u8 list \<Rightarrow> nat \<Rightarrow> nat \<Rightarrow> nat \<Rightarrow> nat set" where
  "read_positions smem src a b = (\<lambda>j. unat (smem ! (src + j))) ` {a..<b}"

section \<open>Memory, bytes and bits\<close>

text \<open>The loop equations are unfolded by hand, one iteration at a time.\<close>

declare extract_loop.simps [simp del]
declare expand_loop4.simps [simp del]
declare expand_loop1.simps [simp del]
declare compress_loop.simps [simp del]
declare decompress_loop.simps [simp del]

lemma storeu_Some:
  "p + length bs \<le> length mem \<Longrightarrow> storeu mem p bs = Some (take p mem @ bs @ drop (p + length bs) mem)"
  by (simp add: storeu_def)

lemma storeu_length: "storeu mem p bs = Some mem' \<Longrightarrow> length mem' = length mem"
  by (auto simp: storeu_def split: if_splits)

lemma storeu_take:
  "storeu mem p bs = Some mem' \<Longrightarrow> k \<le> length bs \<Longrightarrow> take (p + k) mem' = take p mem @ take k bs"
  by (auto simp: storeu_def split: if_splits)

lemma bit_le_word:
  "bit (le_word bs :: 'a::len word) n \<longleftrightarrow>
     n < LENGTH('a) \<and> n div 8 < length bs \<and> bit (bs ! (n div 8)) (n mod 8)"
  using bit_horner_sum_uint_exp_iff[where 'a=8, of "bs" n]
  by (simp add: le_word_def word_rcat_def bit_word_of_int_iff)

lemma length_le_bytes [simp]: "length (le_bytes n w) = n"
  by (simp add: le_bytes_def)

lemma bit_le_bytes:
  "k < n \<Longrightarrow> bit (le_bytes n w ! k) j \<longleftrightarrow> j < 8 \<and> bit w (8 * k + j)"
  by (auto simp: le_bytes_def bit_simps)


lemma le_word_le_bytes_u32: "le_word (le_bytes 4 (w :: u32)) = w"
proof (rule bit_eqI)
  fix n
  assume "possible_bit TYPE(u32) n"
  then have n: "n < 32" by simp
  then have "n div 8 < 4" by simp
  with n show "bit (le_word (le_bytes 4 w) :: u32) n = bit w n"
    by (simp add: bit_le_word bit_le_bytes)
qed

lemma chunk_bit_lane:
  assumes "8 * i + 8 \<le> length v" "j < 64"
  shows "bit (le_word (take 8 (drop (8 * i) v)) :: u64) j = chunk_bit v (64 * i + j)"
proof -
  have e: "64 * i + j = j + (8 * i) * 8" by simp
  have d: "(64 * i + j) div 8 = 8 * i + j div 8"
    using e by (simp only: div_mult_self3)
  have m: "(64 * i + j) mod 8 = j mod 8"
    using e by (simp only: mod_mult_self1)
  have "j div 8 < 8" using assms(2) by simp
  with assms show ?thesis
    by (simp add: bit_le_word chunk_bit_def d m)
qed


lemma filter_upt_shift:
  "filter P [a..<a + n] = map (\<lambda>j. a + j) (filter (\<lambda>j. P (a + j)) [0..<n])"
proof -
  have "[a..<a + n] = map (\<lambda>j. a + j) [0..<n]"
    using map_add_upt[of a n] by (simp add: add.commute)
  then show ?thesis
    by (simp add: filter_map comp_def)
qed

lemma lanes_from_0: "lanes_from v 0 = one_positions v"
  by (simp add: lanes_from_def one_positions_def)

lemma lanes_from_4: "lanes_from v 4 = []"
  by (simp add: lanes_from_def)

lemma lanes_from_step:
  assumes "i < 4"
  shows "lanes_from v i = lane_positions v i @ lanes_from v (Suc i)"
proof -
  have "64 * i + 64 \<le> (256::nat)"
    using assms by simp
  then obtain k where k: "256 = (64 * i + 64) + k"
    using le_Suc_ex by blast
  have "[64 * i..<(64 * i + 64) + k] = [64 * i..<64 * i + 64] @ [64 * i + 64..<(64 * i + 64) + k]"
    by (rule upt_add_eq_append) simp
  then show ?thesis
    unfolding lanes_from_def lane_positions_def k[symmetric] by (simp add: add.commute)
qed

lemma mm_popcnt_lane:
  assumes "8 * i + 8 \<le> length v"
  shows "mm_popcnt_u64 (le_word (take 8 (drop (8 * i) v))) = length (lane_positions v i)"
proof -
  have "filter (bit (le_word (take 8 (drop (8 * i) v)) :: u64)) [0..<64] =
        filter (\<lambda>j. chunk_bit v (64 * i + j)) [0..<64]"
    by (rule filter_cong) (use assms in \<open>simp_all add: chunk_bit_lane\<close>)
  then show ?thesis
    by (simp add: mm_popcnt_u64_def lane_positions_def filter_upt_shift)
qed

lemma length_one_positions_le: "length (one_positions v) \<le> 256"
  using length_filter_le[of "chunk_bit v" "[0..<256]"] by (simp add: one_positions_def)

lemma one_positions_lanes:
  "one_positions v = lane_positions v 0 @ lane_positions v 1 @ lane_positions v 2 @ lane_positions v 3"
proof -
  have "lanes_from v 0 = lane_positions v 0 @ lanes_from v 1"
    using lanes_from_step[of 0 v] by simp
  also have "lanes_from v 1 = lane_positions v 1 @ lanes_from v 2"
    using lanes_from_step[of 1 v] by (simp add: numeral_2_eq_2)
  also have "lanes_from v 2 = lane_positions v 2 @ lanes_from v 3"
    using lanes_from_step[of 2 v] by (simp add: numeral_3_eq_3)
  also have "lanes_from v 3 = lane_positions v 3 @ lanes_from v 4"
    using lanes_from_step[of 3 v] by (simp add: eval_nat_numeral)
  finally show ?thesis
    by (simp add: lanes_from_0 lanes_from_4)
qed

lemma upt_4: "[0..<4] = [0, 1, 2, 3]"
  by (simp add: upt_rec[of 0] upt_rec[of "Suc 0"] upt_rec[of "Suc (Suc 0)"] eval_nat_numeral)

lemma popcount_256_correct:
  assumes "p + 32 \<le> length mem"
  shows "popcount_256 mem p = Some (popcount (take 32 (drop p mem)))"
proof -
  define v where "v = take 32 (drop p mem)"
  have lv: "length v = 32" using assms by (simp add: v_def)
  have ld: "loadu mem p 32 = Some v" using assms by (simp add: loadu_def v_def)
  have lanes: "epi64_lanes v = map (\<lambda>i. le_word (take 8 (drop (8 * i) v))) [0, 1, 2, 3]"
    by (simp add: epi64_lanes_def lv upt_4)
  have pc: "mm_popcnt_u64 (le_word (take 8 (drop (8 * i) v))) = length (lane_positions v i)"
    if "i < 4" for i
    by (rule mm_popcnt_lane) (use that lv in simp)
  have tot: "length (lane_positions v 0) + length (lane_positions v 1)
        + length (lane_positions v 2) + length (lane_positions v 3) = popcount v"
    by (simp add: popcount_def one_positions_lanes)
  have bound: "popcount v \<le> 256"
    by (simp add: popcount_def length_one_positions_le)
  have "popcount_256 mem p =
     Some (unat (of_nat (length (lane_positions v 0)) + of_nat (length (lane_positions v 2))
       + (of_nat (length (lane_positions v 1)) + of_nat (length (lane_positions v 3))) :: u64))"
    using pc[of 0] pc[of 1] pc[of 2] pc[of 3]
    by (simp add: popcount_256_def ld lanes Let_def)
  also have "of_nat (length (lane_positions v 0)) + of_nat (length (lane_positions v 2))
       + (of_nat (length (lane_positions v 1)) + of_nat (length (lane_positions v 3)))
     = (of_nat (popcount v) :: u64)"
    by (simp flip: tot)
  also have "unat (of_nat (popcount v) :: u64) = popcount v"
    using bound by (simp add: unat_of_nat)
  finally show ?thesis by (simp add: v_def)
qed


section \<open>Compaction: the payload of a sparse record\<close>

lemma length_indices: "length indices = 256"
  by (simp add: indices_def)

lemma loadu_indices:
  assumes "i < 4"
  shows "loadu indices (64 * i) 64 = Some (map of_nat [64 * i..<64 * i + 64])"
proof -
  have "64 * i + 64 \<le> (256::nat)" using assms by simp
  then show ?thesis
    by (simp add: loadu_def indices_def take_map drop_map)
qed

lemma compress_lane:
  assumes "8 * i + 8 \<le> length v"
  shows "mm512_maskz_compress_epi8 (le_word (take 8 (drop (8 * i) v))) (map of_nat [64 * i..<64 * i + 64])
         = map of_nat (lane_positions v i) @ replicate (64 - length (lane_positions v i)) 0"
proof -
  let ?m = "le_word (take 8 (drop (8 * i) v)) :: u64"
  have f: "filter (bit ?m) [0..<64] = filter (\<lambda>j. chunk_bit v (64 * i + j)) [0..<64]"
    by (rule filter_cong) (use assms in \<open>simp_all add: chunk_bit_lane\<close>)
  have "map (\<lambda>j. map of_nat [64 * i..<64 * i + 64] ! j) (filter (bit ?m) [0..<64])
        = map (\<lambda>j. (of_nat (64 * i + j) :: u8)) (filter (bit ?m) [0..<64])"
    by (rule map_cong) auto
  also have "\<dots> = map of_nat (lane_positions v i)"
    by (simp add: f lane_positions_def filter_upt_shift comp_def)
  finally show ?thesis
    by (simp add: mm512_maskz_compress_epi8_def Let_def)
qed

lemma length_lane_positions: "length (lane_positions v i) \<le> 64"
  using length_filter_le[of "chunk_bit v" "[64 * i..<64 * i + 64]"] by (simp add: lane_positions_def)

lemma extract_loop_correct:
  assumes "i \<le> 4" "src + 32 \<le> length smem"
    and "dst + length (lanes_from (take 32 (drop src smem)) i) + 64 \<le> length dmem"
  shows "\<exists>dmem'. extract_loop i smem (src + 8 * i) (64 * i) dmem dst = Some dmem' \<and>
           length dmem' = length dmem \<and>
           take (dst + length (lanes_from (take 32 (drop src smem)) i)) dmem' =
             take dst dmem @ map of_nat (lanes_from (take 32 (drop src smem)) i)"
  using assms
proof (induction "4 - i" arbitrary: i dmem dst)
  case 0
  then have i: "i = 4" by simp
  show ?case
    by (subst extract_loop.simps) (simp add: i lanes_from_4)
next
  case (Suc n)
  let ?v = "take 32 (drop src smem)"
  from Suc.hyps(2) have i: "i < 4" by simp
  have lv: "length ?v = 32" using Suc.prems(2) by simp
  have vi: "8 * i + 8 \<le> length ?v" using i lv by simp
  have tk: "take 8 (drop (src + 8 * i) smem) = take 8 (drop (8 * i) ?v)"
    using i by (simp add: drop_take add.commute)
  have ld: "load_u64 smem (src + 8 * i) = Some (le_word (take 8 (drop (8 * i) ?v)))"
    using i Suc.prems(2) by (simp add: load_u64_def loadu_def tk)
  let ?m = "le_word (take 8 (drop (8 * i) ?v)) :: u64"
  let ?bs = "map of_nat (lane_positions ?v i) @ replicate (64 - length (lane_positions ?v i)) (0::u8)"
  have lbs: "length ?bs = 64" using length_lane_positions[of ?v i] by simp
  have step: "lanes_from ?v i = lane_positions ?v i @ lanes_from ?v (Suc i)"
    by (rule lanes_from_step[OF i])
  have fits: "dst + 64 \<le> length dmem" using Suc.prems(3) by simp
  obtain d1 where d1: "storeu dmem dst ?bs = Some d1"
    using fits lbs by (simp add: storeu_def)
  have ld1: "length d1 = length dmem" by (rule storeu_length[OF d1])
  have td1: "take (dst + length (lane_positions ?v i)) d1 = take dst dmem @ map of_nat (lane_positions ?v i)"
    using storeu_take[OF d1, of "length (lane_positions ?v i)"] lbs length_lane_positions[of ?v i]
    by simp
  have "\<exists>dmem'. extract_loop (Suc i) smem (src + 8 * Suc i) (64 * Suc i) d1 (dst + length (lane_positions ?v i)) = Some dmem' \<and>
           length dmem' = length d1 \<and>
           take (dst + length (lane_positions ?v i) + length (lanes_from ?v (Suc i))) dmem' =
             take (dst + length (lane_positions ?v i)) d1 @ map of_nat (lanes_from ?v (Suc i))"
    apply (rule Suc.hyps(1))
    using Suc.hyps(2) Suc.prems i step ld1 by simp_all
  then obtain dmem' where
    r: "extract_loop (Suc i) smem (src + 8 * Suc i) (64 * Suc i) d1 (dst + length (lane_positions ?v i)) = Some dmem'"
    and l: "length dmem' = length d1"
    and t: "take (dst + length (lane_positions ?v i) + length (lanes_from ?v (Suc i))) dmem' =
             take (dst + length (lane_positions ?v i)) d1 @ map of_nat (lanes_from ?v (Suc i))"
    by blast
  have "extract_loop i smem (src + 8 * i) (64 * i) dmem dst = Some dmem'"
    apply (subst extract_loop.simps)
    apply (simp only: i if_True loadu_indices[OF i] ld bind.bind_lunit compress_lane[OF vi] d1
        mm_popcnt_lane[OF vi])
    using r by (simp add: add.commute add.left_commute)
  moreover have "take (dst + length (lanes_from ?v i)) dmem' = take dst dmem @ map of_nat (lanes_from ?v i)"
    using t by (simp add: step td1 add.assoc)
  ultimately show ?case using l ld1 by simp
qed

lemma extract_and_compact_256_correct:
  assumes "src + 32 \<le> length smem"
    and "dst + length (one_positions (take 32 (drop src smem))) + 64 \<le> length dmem"
  shows "\<exists>dmem'. extract_and_compact_256 smem src dmem dst = Some dmem' \<and>
           length dmem' = length dmem \<and>
           take (dst + length (one_positions (take 32 (drop src smem)))) dmem' =
             take dst dmem @ map of_nat (one_positions (take 32 (drop src smem)))"
  using extract_loop_correct[of 0 src smem dst dmem] assms
  by (simp add: extract_and_compact_256_def lanes_from_0)


section \<open>One bucket of the encoder\<close>

lemma u8_255: "(0xFF :: u8) = - 1"
  by simp

lemma chunk_bit_xor_ones:
  assumes "length chunk = 32" "p < 256"
  shows "chunk_bit (mm256_xor_si256 chunk (mm256_set1_epi8 0xFF)) p = (\<not> chunk_bit chunk p)"
proof -
  have "p div 8 < 32" using assms(2) by simp
  moreover have "p mod 8 < 8" by simp
  ultimately show ?thesis
    using assms(1)
    by (simp add: chunk_bit_def mm256_xor_si256_def mm256_set1_epi8_def u8_255 bit_simps
        del: bit_minus_1_iff) 
qed

lemma length_xor_ones [simp]:
  "length (mm256_xor_si256 chunk (mm256_set1_epi8 b)) = min (length chunk) 32"
  by (simp add: mm256_xor_si256_def mm256_set1_epi8_def)

lemma one_positions_xor_ones:
  assumes "length chunk = 32"
  shows "one_positions (mm256_xor_si256 chunk (mm256_set1_epi8 0xFF)) = zero_positions chunk"
  unfolding one_positions_def zero_positions_def
  by (rule filter_cong) (use assms in \<open>simp_all add: chunk_bit_xor_ones\<close>)

lemma length_zero_positions: "length (zero_positions chunk) = 256 - popcount chunk"
  using sum_length_filter_compl[of "chunk_bit chunk" "[0..<256]"]
  by (simp add: zero_positions_def popcount_def one_positions_def)

lemma popcount_le: "popcount chunk \<le> 256"
  by (simp add: popcount_def length_one_positions_le)

lemma length_chunk_record:
  assumes "length chunk = 32"
  shows "1 \<le> length (chunk_record chunk) \<and> length (chunk_record chunk) \<le> 33"
  using assms popcount_le[of chunk]
  by (auto simp: chunk_record_def Let_def length_zero_positions popcount_def[symmetric])

lemma header_sparse: "(of_nat c :: u8) = header_byte 0 c"
  by (simp add: header_byte_def)

lemma header_dense: "(of_nat c :: u8) OR 0x40 = header_byte 1 c"
  by (simp add: header_byte_def or.commute)

lemma header_raw: "(of_nat 32 :: u8) OR 0x80 = header_byte 2 32"
  by (simp add: header_byte_def)

lemma compress_bucket_correct:
  assumes "inp + 32 \<le> length (input vm)" "outp + 96 \<le> length (output vm)"
    and "length (helper_bucket vm) = 32"
  shows "\<exists>out' h'. compress_bucket vm inp outp rs =
            Some (vm\<lparr>output := out', helper_bucket := h'\<rparr>,
                  outp + length (chunk_record (take 32 (drop inp (input vm)))),
                  rs + of_nat (length (chunk_record (take 32 (drop inp (input vm)))))) \<and>
           length out' = length (output vm) \<and> length h' = 32 \<and>
           take (outp + length (chunk_record (take 32 (drop inp (input vm))))) out' =
             take outp (output vm) @ chunk_record (take 32 (drop inp (input vm)))"
proof -
  define chunk where "chunk = take 32 (drop inp (input vm))"
  have lc: "length chunk = 32" using assms(1) by (simp add: chunk_def)
  have pc: "popcount_256 (input vm) inp = Some (popcount chunk)"
    using popcount_256_correct[OF assms(1)] by (simp add: chunk_def)
  consider (sparse) "popcount chunk < 32"
    | (dense) "\<not> popcount chunk < 32" "256 - popcount chunk < 32"
    | (raw) "\<not> popcount chunk < 32" "\<not> 256 - popcount chunk < 32"
    by blast
  then have "\<exists>out' h'. compress_bucket vm inp outp rs =
            Some (vm\<lparr>output := out', helper_bucket := h'\<rparr>,
                  outp + length (chunk_record chunk), rs + of_nat (length (chunk_record chunk))) \<and>
           length out' = length (output vm) \<and> length h' = 32 \<and>
           take (outp + length (chunk_record chunk)) out' = take outp (output vm) @ chunk_record chunk"
  proof cases
    case sparse
    have rec: "chunk_record chunk = header_byte 0 (popcount chunk) # map of_nat (one_positions chunk)"
      using sparse by (simp add: chunk_record_def)
    obtain out1 where o1: "storeu (output vm) outp [of_nat (popcount chunk)] = Some out1"
      using assms(2) by (simp add: storeu_def)
    have l1: "length out1 = length (output vm)" by (rule storeu_length[OF o1])
    have t1: "take (outp + 1) out1 = take outp (output vm) @ [header_byte 0 (popcount chunk)]"
      using storeu_take[OF o1, of 1] by (simp add: header_sparse)
    have "\<exists>out2. extract_and_compact_256 (input vm) inp out1 (outp + 1) = Some out2 \<and>
           length out2 = length out1 \<and>
           take (outp + 1 + length (one_positions chunk)) out2 =
             take (outp + 1) out1 @ map of_nat (one_positions chunk)"
      unfolding chunk_def
      by (rule extract_and_compact_256_correct)
        (use assms sparse l1 in \<open>simp_all add: popcount_def chunk_def\<close>)
    then obtain out2 where e: "extract_and_compact_256 (input vm) inp out1 (outp + 1) = Some out2"
      and l2: "length out2 = length out1"
      and t2: "take (outp + 1 + length (one_positions chunk)) out2 =
             take (outp + 1) out1 @ map of_nat (one_positions chunk)"
      by blast
    have "compress_bucket vm inp outp rs =
        Some (vm\<lparr>output := out2, helper_bucket := helper_bucket vm\<rparr>,
              outp + length (chunk_record chunk), rs + of_nat (length (chunk_record chunk)))"
      using sparse o1 e by (simp add: compress_bucket_def pc rec popcount_def)
    moreover have "take (outp + length (chunk_record chunk)) out2 =
        take outp (output vm) @ chunk_record chunk"
      using t2 t1 by (simp add: rec)
    ultimately show ?thesis
      using l1 l2 assms(3)
      by (intro exI[of _ out2] exI[of _ "helper_bucket vm"]) simp
  next
    case dense
    have rec: "chunk_record chunk =
        header_byte 1 (256 - popcount chunk) # map of_nat (zero_positions chunk)"
      using dense by (simp add: chunk_record_def)
    obtain out1 where o1: "storeu (output vm) outp [of_nat (256 - popcount chunk) OR 0x40] = Some out1"
      using assms(2) by (simp add: storeu_def)
    have l1: "length out1 = length (output vm)" by (rule storeu_length[OF o1])
    have t1: "take (outp + 1) out1 = take outp (output vm) @ [header_byte 1 (256 - popcount chunk)]"
      using storeu_take[OF o1, of 1] by (simp add: header_dense)
    define h where "h = mm256_xor_si256 chunk (mm256_set1_epi8 0xFF)"
    have lh: "length h = 32" by (simp add: h_def lc)
    have inv: "invert_256 (input vm) inp (helper_bucket vm) 0 = Some h"
      using assms(1,3) by (simp add: invert_256_def loadu_def storeu_def h_def chunk_def lc)
    have oh: "one_positions h = zero_positions chunk"
      by (simp add: h_def one_positions_xor_ones[OF lc])
    have "\<exists>out2. extract_and_compact_256 h 0 out1 (outp + 1) = Some out2 \<and>
           length out2 = length out1 \<and>
           take (outp + 1 + length (zero_positions chunk)) out2 =
             take (outp + 1) out1 @ map of_nat (zero_positions chunk)"
      using extract_and_compact_256_correct[of 0 h "outp + 1" out1] assms(2) dense l1 lh
      by (simp add: oh length_zero_positions)
    then obtain out2 where e: "extract_and_compact_256 h 0 out1 (outp + 1) = Some out2"
      and l2: "length out2 = length out1"
      and t2: "take (outp + 1 + length (zero_positions chunk)) out2 =
             take (outp + 1) out1 @ map of_nat (zero_positions chunk)"
      by blast
    have "compress_bucket vm inp outp rs =
        Some (vm\<lparr>output := out2, helper_bucket := h\<rparr>,
              outp + length (chunk_record chunk), rs + of_nat (length (chunk_record chunk)))"
      using dense popcount_le[of chunk] o1 e
      by (simp add: compress_bucket_def pc inv rec length_zero_positions)
    moreover have "take (outp + length (chunk_record chunk)) out2 =
        take outp (output vm) @ chunk_record chunk"
      using t2 t1 by (simp add: rec)
    ultimately show ?thesis
      using l1 l2 lh
      by (intro exI[of _ out2] exI[of _ h]) simp
  next
    case raw
    have rec: "chunk_record chunk = header_byte 2 32 # chunk"
      using raw by (simp add: chunk_record_def)
    obtain out1 where o1: "storeu (output vm) outp [of_nat 32 OR 0x80] = Some out1"
      using assms(2) by (simp add: storeu_def)
    have l1: "length out1 = length (output vm)" by (rule storeu_length[OF o1])
    have t1: "take (outp + 1) out1 = take outp (output vm) @ [header_byte 2 32]"
      using storeu_take[OF o1, of 1] by (simp only: header_raw) simp
    have ld: "loadu (input vm) inp 32 = Some chunk"
      using assms(1) by (simp add: loadu_def chunk_def)
    obtain out2 where o2: "storeu out1 (outp + 1) chunk = Some out2"
      using assms(2) l1 lc by (simp add: storeu_def)
    have l2: "length out2 = length out1" by (rule storeu_length[OF o2])
    have t2: "take (outp + 1 + 32) out2 = take (outp + 1) out1 @ chunk"
      using storeu_take[OF o2, of 32] lc by simp
    have "compress_bucket vm inp outp rs =
        Some (vm\<lparr>output := out2, helper_bucket := helper_bucket vm\<rparr>,
              outp + length (chunk_record chunk), rs + of_nat (length (chunk_record chunk)))"
      using raw o1 o2 by (simp add: compress_bucket_def pc ld rec lc)
    moreover have "take (outp + length (chunk_record chunk)) out2 =
        take outp (output vm) @ chunk_record chunk"
      using t2 t1 by (simp add: rec lc add.commute)
    ultimately show ?thesis
      using l1 l2 assms(3)
      by (intro exI[of _ out2] exI[of _ "helper_bucket vm"]) simp
  qed
  then show ?thesis by (simp add: chunk_def)
qed


section \<open>The encoder loop and the frame\<close>

lemma chunk_at_length: "32 * b + 32 \<le> length buf \<Longrightarrow> length (chunk_at buf b) = 32"
  by (simp add: chunk_at_def)

lemma compress_loop_correct:
  assumes "bucket \<le> n" "32 * n \<le> length (input vm)"
    and "bucket < n \<Longrightarrow> outp + 33 * (n - bucket) + 63 \<le> length (output vm)"
    and "length (helper_bucket vm) = 32"
  shows "\<exists>out' h'. compress_loop n bucket vm (32 * bucket) outp rs =
            Some (vm\<lparr>output := out', helper_bucket := h'\<rparr>,
                  rs + of_nat (length (concat (map (\<lambda>b. chunk_record (chunk_at (input vm) b)) [bucket..<n])))) \<and>
           length out' = length (output vm) \<and> length h' = 32 \<and>
           take (outp + length (concat (map (\<lambda>b. chunk_record (chunk_at (input vm) b)) [bucket..<n]))) out' =
             take outp (output vm) @ concat (map (\<lambda>b. chunk_record (chunk_at (input vm) b)) [bucket..<n])"
  using assms
proof (induction "n - bucket" arbitrary: bucket vm outp rs)
  case 0
  then have "\<not> bucket < n" by simp
  then show ?case
    apply (subst compress_loop.simps)
    apply (rule exI[of _ "output vm"], rule exI[of _ "helper_bucket vm"])
    using "0.prems"(4) by simp
next
  case (Suc k)
  from Suc.hyps(2) have lt: "bucket < n" by simp
  let ?c = "chunk_at (input vm) bucket"
  let ?r = "chunk_record ?c"
  let ?rest = "concat (map (\<lambda>b. chunk_record (chunk_at (input vm) b)) [Suc bucket..<n])"
  have inb: "32 * bucket + 32 \<le> length (input vm)" using lt Suc.prems(2) by simp
  have lc: "length ?c = 32" by (rule chunk_at_length[OF inb])
  have lr: "1 \<le> length ?r" "length ?r \<le> 33" using length_chunk_record[OF lc] by simp_all
  have ob: "outp + 96 \<le> length (output vm)" using Suc.prems(3)[OF lt] lt by simp
  have "\<exists>out' h'. compress_bucket vm (32 * bucket) outp rs =
            Some (vm\<lparr>output := out', helper_bucket := h'\<rparr>,
                  outp + length (chunk_record (take 32 (drop (32 * bucket) (input vm)))),
                  rs + of_nat (length (chunk_record (take 32 (drop (32 * bucket) (input vm)))))) \<and>
           length out' = length (output vm) \<and> length h' = 32 \<and>
           take (outp + length (chunk_record (take 32 (drop (32 * bucket) (input vm))))) out' =
             take outp (output vm) @ chunk_record (take 32 (drop (32 * bucket) (input vm)))"
    by (rule compress_bucket_correct[OF inb ob Suc.prems(4)])
  then obtain out1 h1 where
    cb: "compress_bucket vm (32 * bucket) outp rs =
            Some (vm\<lparr>output := out1, helper_bucket := h1\<rparr>, outp + length ?r, rs + of_nat (length ?r))"
    and l1: "length out1 = length (output vm)" and lh1: "length h1 = 32"
    and t1: "take (outp + length ?r) out1 = take outp (output vm) @ ?r"
    unfolding chunk_at_def by blast
  let ?vm1 = "vm\<lparr>output := out1, helper_bucket := h1\<rparr>"
  have "\<exists>out' h'. compress_loop n (Suc bucket) ?vm1 (32 * Suc bucket) (outp + length ?r) (rs + of_nat (length ?r)) =
            Some (?vm1\<lparr>output := out', helper_bucket := h'\<rparr>,
                  (rs + of_nat (length ?r)) + of_nat (length (concat (map (\<lambda>b. chunk_record (chunk_at (input ?vm1) b)) [Suc bucket..<n])))) \<and>
           length out' = length (output ?vm1) \<and> length h' = 32 \<and>
           take ((outp + length ?r) + length (concat (map (\<lambda>b. chunk_record (chunk_at (input ?vm1) b)) [Suc bucket..<n]))) out' =
             take (outp + length ?r) (output ?vm1) @ concat (map (\<lambda>b. chunk_record (chunk_at (input ?vm1) b)) [Suc bucket..<n])"
  proof (rule Suc.hyps(1))
    show "k = n - Suc bucket" using Suc.hyps(2) by simp
    show "Suc bucket \<le> n" using lt by simp
    show "32 * n \<le> length (input ?vm1)" using Suc.prems(2) by simp
    show "length (helper_bucket ?vm1) = 32" using lh1 by simp
    show "outp + length ?r + 33 * (n - Suc bucket) + 63 \<le> length (output ?vm1)" if "Suc bucket < n"
      using Suc.prems(3)[OF lt] lr(2) l1 that by simp
  qed
  then obtain out2 h2 where
    cl: "compress_loop n (Suc bucket) ?vm1 (32 * Suc bucket) (outp + length ?r) (rs + of_nat (length ?r)) =
            Some (vm\<lparr>output := out2, helper_bucket := h2\<rparr>, rs + of_nat (length ?r) + of_nat (length ?rest))"
    and l2: "length out2 = length out1" and lh2: "length h2 = 32"
    and t2: "take (outp + length ?r + length ?rest) out2 = take (outp + length ?r) out1 @ ?rest"
    by auto
  have split: "concat (map (\<lambda>b. chunk_record (chunk_at (input vm) b)) [bucket..<n]) = ?r @ ?rest"
    using lt by (simp add: upt_conv_Cons)
  have "compress_loop n bucket vm (32 * bucket) outp rs =
      Some (vm\<lparr>output := out2, helper_bucket := h2\<rparr>, rs + of_nat (length (?r @ ?rest)))"
    apply (subst compress_loop.simps)
    using lt cl by (simp add: cb add.commute add.left_commute)
  moreover have "take (outp + length (?r @ ?rest)) out2 = take outp (output vm) @ (?r @ ?rest)"
    using t2 t1 by (simp add: add.assoc)
  ultimately show ?case
    unfolding split using l1 l2 lh2
    apply (rule_tac x = out2 in exI, rule_tac x = h2 in exI)
    by simp
qed


lemma length_records_le:
  assumes "32 * n \<le> length buf"
  shows "length (concat (map chunk_record (chunks buf n))) \<le> 33 * n"
  using assms
proof (induction n)
  case 0
  then show ?case by (simp add: chunks_def)
next
  case (Suc n)
  have "length (chunk_at buf n) = 32"
    by (rule chunk_at_length) (use Suc.prems in simp)
  then have "length (chunk_record (chunk_at buf n)) \<le> 33"
    using length_chunk_record by blast
  moreover have "length (concat (map chunk_record (chunks buf n))) \<le> 33 * n"
    using Suc by simp
  ultimately show ?case by (simp add: chunks_def)
qed

lemma unat_of_nat_u32: "k < 2 ^ 32 \<Longrightarrow> unat (of_nat k :: u32) = k"
  by (simp add: unat_of_nat)

lemma length_frame: "length (frame sz cs) = 4 + length (concat (map chunk_record cs))"
  by (simp add: frame_def)

lemma vitemap_compress_frame:
  assumes "vm_wf vm"
  shows "\<exists>out' h'. vitemap_compress vm sz =
            Some (vm\<lparr>output := out', helper_bucket := h'\<rparr>,
                  of_nat (length (frame sz (chunks (input vm) (unat (num_buckets vm)))))) \<and>
           length out' = length (output vm) \<and> length h' = 32 \<and>
           take (length (frame sz (chunks (input vm) (unat (num_buckets vm))))) out' =
             frame sz (chunks (input vm) (unat (num_buckets vm))) \<and>
           unat (of_nat (length (frame sz (chunks (input vm) (unat (num_buckets vm))))) :: u32) =
             length (frame sz (chunks (input vm) (unat (num_buckets vm))))"
proof -
  define n where "n = unat (num_buckets vm)"
  define R where "R = concat (map chunk_record (chunks (input vm) n))"
  have wf: "length (input vm) = 32 * n" "length (output vm) = 64 * n + 36"
    "length (helper_bucket vm) = 32" "64 * n + 4 < 2 ^ 32"
    using assms unsigned_less[of "max_compressed_size vm", where ?'a = nat] by (auto simp: vm_wf_def n_def)
  have R': "R = concat (map (\<lambda>b. chunk_record (chunk_at (input vm) b)) [0..<n])"
    by (simp add: R_def chunks_def comp_def)
  have lR: "length R \<le> 33 * n"
    unfolding R_def by (rule length_records_le) (simp add: wf)
  obtain out0 where o0: "store_u32 (output vm) 0 sz = Some out0"
    using wf(2) by (simp add: store_u32_def storeu_def)
  have l0: "length out0 = length (output vm)"
    using o0 by (auto simp: store_u32_def dest: storeu_length)
  have t0: "take 4 out0 = le_bytes 4 sz"
    using o0 storeu_take[of "output vm" 0 "le_bytes 4 sz" out0 4] by (simp add: store_u32_def)
  let ?vm0 = "vm\<lparr>output := out0\<rparr>"
  have "\<exists>out' h'. compress_loop n 0 ?vm0 (32 * 0) 4 4 =
            Some (?vm0\<lparr>output := out', helper_bucket := h'\<rparr>,
                  4 + of_nat (length (concat (map (\<lambda>b. chunk_record (chunk_at (input ?vm0) b)) [0..<n])))) \<and>
           length out' = length (output ?vm0) \<and> length h' = 32 \<and>
           take (4 + length (concat (map (\<lambda>b. chunk_record (chunk_at (input ?vm0) b)) [0..<n]))) out' =
             take 4 (output ?vm0) @ concat (map (\<lambda>b. chunk_record (chunk_at (input ?vm0) b)) [0..<n])"
  proof (rule compress_loop_correct)
    show "0 \<le> n" by simp
    show "32 * n \<le> length (input ?vm0)" by (simp add: wf)
    show "length (helper_bucket ?vm0) = 32" by (simp add: wf)
    show "4 + 33 * (n - 0) + 63 \<le> length (output ?vm0)" if "0 < n"
      using that by (simp add: l0 wf)
  qed
  then obtain out' h' where
    cl: "compress_loop n 0 ?vm0 0 4 4 = Some (vm\<lparr>output := out', helper_bucket := h'\<rparr>, 4 + of_nat (length R))"
    and l: "length out' = length out0" and lh: "length h' = 32"
    and t: "take (4 + length R) out' = le_bytes 4 sz @ R"
    by (auto simp: R' t0)
  have F: "frame sz (chunks (input vm) n) = le_bytes 4 sz @ R"
    by (simp add: frame_def R_def)
  have lF: "length (frame sz (chunks (input vm) n)) = 4 + length R"
    by (simp add: F)
  have "vitemap_compress vm sz =
      Some (vm\<lparr>output := out', helper_bucket := h'\<rparr>, of_nat (length (frame sz (chunks (input vm) n))))"
    using cl by (simp add: vitemap_compress_def o0 lF flip: n_def)
  moreover have "unat (of_nat (length (frame sz (chunks (input vm) n))) :: u32) =
      length (frame sz (chunks (input vm) n))"
    by (rule unat_of_nat_u32) (use lR wf(4) in \<open>simp add: lF\<close>)
  ultimately show ?thesis
    unfolding n_def[symmetric] using l l0 lh t
    apply (rule_tac x = out' in exI, rule_tac x = h' in exI)
    by (simp add: lF F)
qed


section \<open>The fields of a header byte\<close>

lemma u8_3F: "(0x3F :: u8) = mask 6"
  by (simp add: mask_eq_exp_minus_1)

lemma not_bit_small:
  assumes "c < 64" "6 \<le> n"
  shows "\<not> bit (c::nat) n"
proof -
  have "(2::nat) ^ 6 \<le> 2 ^ n"
    using assms(2) by (intro power_increasing) simp_all
  then have "c < 2 ^ n" using assms(1) by simp
  then show ?thesis by (simp add: bit_iff_odd)
qed

lemma header_byte_length:
  assumes "len < 64"
  shows "header_byte cat len AND 0x3F = of_nat len"
proof (rule bit_eqI)
  fix n
  show "bit (header_byte cat len AND 0x3F) n = bit (of_nat len :: u8) n"
  proof (cases "n < 6")
    case True
    then show ?thesis
      by (simp add: u8_3F header_byte_def bit_simps)
  next
    case False
    then show ?thesis
      using not_bit_small[OF assms, of n]
      by (simp add: u8_3F header_byte_def bit_simps)
  qed
qed

lemma header_byte_category:
  assumes "len < 64" "cat < 4"
  shows "drop_bit 6 (header_byte cat len) = of_nat cat"
proof (rule bit_eqI)
  fix n
  have c: "\<not> bit cat n" if "2 \<le> n"
  proof -
    have "(2::nat) ^ 2 \<le> 2 ^ n"
      using that by (intro power_increasing) simp_all
    then have "cat < 2 ^ n" using assms(2) by simp
    then show ?thesis by (simp add: bit_iff_odd)
  qed
  show "bit (drop_bit 6 (header_byte cat len)) n = bit (of_nat cat :: u8) n"
  proof (cases "n < 2")
    case True
    then show ?thesis
      using not_bit_small[OF assms(1), of "6 + n"]
      by (simp add: header_byte_def bit_simps)
  next
    case False
    then show ?thesis
      using not_bit_small[OF assms(1), of "6 + n"] c
      by (simp add: header_byte_def bit_simps)
  qed
qed


section \<open>The frame of a well-formed context\<close>

lemma compressed_frame_eq:
  assumes "vm_wf vm"
  shows "compressed_frame (vitemap_compress vm sz) =
         Some (frame sz (chunks (input vm) (unat (num_buckets vm))))"
  using vitemap_compress_frame[OF assms, of sz] by (auto simp: compressed_frame_def)

lemma chunks_length:
  assumes "32 * n \<le> length buf" "c \<in> set (chunks buf n)"
  shows "length c = 32"
proof -
  from assms(2) obtain b where "b < n" "c = chunk_at buf b"
    by (auto simp: chunks_def)
  then show ?thesis
    using assms(1) by (simp add: chunk_at_length)
qed

lemma vm_wf_chunks:
  assumes "vm_wf vm" "c \<in> set (chunks (input vm) (unat (num_buckets vm)))"
  shows "length c = 32"
  by (rule chunks_length[OF _ assms(2)]) (use assms(1) in \<open>simp add: vm_wf_def\<close>)

lemma chunk_record_cases:
  "chunk_record c =
     (if popcount c < 32 then header_byte 0 (popcount c) # map of_nat (one_positions c)
      else if 224 < popcount c then header_byte 1 (256 - popcount c) # map of_nat (zero_positions c)
      else header_byte 2 32 # c)"
  using popcount_le[of c] by (auto simp: chunk_record_def Let_def)

lemma sorted_one_positions: "sorted_wrt (<) (one_positions c)"
  unfolding one_positions_def by (rule sorted_wrt_filter) simp

lemma set_one_positions: "set (one_positions c) = {p. p < 256 \<and> bit (c ! (p div 8)) (p mod 8)}"
  by (auto simp: one_positions_def chunk_bit_def)

lemma unat_of_nat_u8: "k < 256 \<Longrightarrow> unat (of_nat k :: u8) = k"
  by (simp add: unat_of_nat)

lemma map_unat_positions:
  assumes "\<forall>p \<in> set ps. p < 256"
  shows "map unat (map of_nat ps :: u8 list) = ps"
  using assms by (induction ps) (simp_all add: unat_of_nat_u8)

lemma unat_payload_one_positions: "map unat (map of_nat (one_positions c) :: u8 list) = one_positions c"
  by (rule map_unat_positions) (simp add: one_positions_def)

lemma sparse_record_iff:
  assumes "length c = 32"
  shows "drop_bit 6 (hd (chunk_record c)) = 0 \<longleftrightarrow> popcount c < 32"
  using header_byte_category[of "popcount c" 0] header_byte_category[of "256 - popcount c" 1]
    header_byte_category[of 32 2]
  by (simp add: chunk_record_cases)

section \<open>Rounding up to a bucket boundary\<close>

lemma ceil32: "(n::nat) div 32 + (if 0 < n mod 32 then 1 else 0) = (n + 31) div 32"
proof -
  define q r where "q = n div 32" and "r = n mod 32"
  have n: "n = q * 32 + r" and r: "r < 32" by (simp_all add: q_def r_def)
  have "(n + 31) div 32 = q + (r + 31) div 32"
    unfolding n by (simp add: add.assoc)
  moreover have "(r + 31) div 32 = (if 0 < r then 1 else 0)"
  proof (cases "0 < r")
    case True
    then have "(r + 31) div 32 = 1"
      using r by (intro div_nat_eqI) simp_all
    with True show ?thesis by simp
  next
    case False
    then show ?thesis by simp
  qed
  ultimately show ?thesis by (simp add: q_def r_def)
qed

lemma peek_buffer_size:
  assumes "unat (sz :: u32) + 31 < 2 ^ 32"
  shows "unat ((sz div 32 + (if sz mod 32 > 0 then 1 else 0)) * 32) = (unat sz + 31) div 32 * 32"
proof -
  define a b :: u32 where "a = sz div 32" and "b = (if sz mod 32 > 0 then 1 else 0)"
  have ua: "unat a = unat sz div 32"
    by (simp add: a_def unat_div)
  have ub: "unat b = (if 0 < unat sz mod 32 then 1 else 0)"
    by (simp add: b_def word_less_nat_alt unat_mod)
  have s: "unat a + unat b = (unat sz + 31) div 32"
    unfolding ua ub by (rule ceil32)
  have "unat a + unat b < 2 ^ LENGTH(32)"
    unfolding s using assms by simp
  then have uab: "unat (a + b) = (unat sz + 31) div 32"
    using s by (simp only: unat_add_lem[THEN iffD1])
  have "unat (a + b) * unat (32 :: u32) < 2 ^ LENGTH(32)"
    unfolding uab using assms by simp
  then have "unat ((a + b) * 32) = unat (a + b) * unat (32 :: u32)"
    by (simp only: unat_mult_lem[THEN iffD1])
  then have "unat ((a + b) * 32) = (unat sz + 31) div 32 * 32"
    unfolding uab by simp
  then show ?thesis
    unfolding a_def b_def .
qed


lemma peek_buffer_size_mod:
  "unat (((sz :: u32) div 32 + (if sz mod 32 > 0 then 1 else 0)) * 32) =
     ((unat sz + 31) div 32 * 32) mod 2 ^ 32"
proof -
  define a b :: u32 where "a = sz div 32" and "b = (if sz mod 32 > 0 then 1 else 0)"
  have ua: "unat a = unat sz div 32"
    by (simp add: a_def unat_div)
  have ub: "unat b = (if 0 < unat sz mod 32 then 1 else 0)"
    by (simp add: b_def word_less_nat_alt unat_mod)
  have s: "unat a + unat b = (unat sz + 31) div 32"
    unfolding ua ub by (rule ceil32)
  have "unat sz < 2 ^ 32"
    using unsigned_less[of sz, where ?'a = nat] by simp
  then have "(unat sz + 31) div 32 < 2 ^ LENGTH(32)"
    by simp
  then have "unat a + unat b < 2 ^ LENGTH(32)"
    unfolding s .
  then have uab: "unat (a + b) = (unat sz + 31) div 32"
    using s by (simp only: unat_add_lem[THEN iffD1])
  have "unat ((a + b) * 32) = unat (a + b) * unat (32 :: u32) mod 2 ^ LENGTH(32)"
    by (rule unat_word_ariths(2))
  then have "unat ((a + b) * 32) = ((unat sz + 31) div 32 * 32) mod 2 ^ 32"
    unfolding uab by simp
  then show ?thesis
    unfolding a_def b_def .
qed

section \<open>The size prefix\<close>

lemma load_u32_frame: "load_u32 (frame sz cs) 0 = Some sz"
  by (simp add: load_u32_def loadu_def frame_def le_word_le_bytes_u32)

lemma vm_wf_size_bound:
  assumes "vm_wf vm" "sz \<le> max_size vm"
  shows "unat sz + 31 < 2 ^ 32"
proof -
  have "unat sz \<le> unat (max_size vm)"
    using assms(2) by (simp add: word_le_nat_alt)
  moreover have "4 + 64 * unat (num_buckets vm) < 2 ^ 32"
    using assms(1) unsigned_less[of "max_compressed_size vm", where ?'a = nat]
    by (simp add: vm_wf_def)
  ultimately show ?thesis
    using assms(1) by (simp add: vm_wf_def)
qed

section \<open>What a compress call writes\<close>







section \<open>The scatter table\<close>

lemma nth_concat_blocks:
  assumes "\<forall>x \<in> set xs. length (f x) = n" "i < n * length xs"
  shows "concat (map f xs) ! i = f (xs ! (i div n)) ! (i mod n)"
  using assms
proof (induction xs arbitrary: i)
  case Nil
  then show ?case by simp
next
  case (Cons x xs)
  have lx: "length (f x) = n" using Cons.prems(1) by simp
  have n0: "0 < n" using Cons.prems(2) by (cases n) simp_all
  show ?case
  proof (cases "i < n")
    case True
    then show ?thesis by (simp add: nth_append lx)
  next
    case False
    then obtain j where j: "i = j + n" by (metis le_add_diff_inverse2 not_less)
    have d: "i div n = Suc (j div n)"
      using n0 div_add_self2[of n j] by (simp add: j)
    have m: "i mod n = j mod n"
      by (simp add: j)
    have "j < n * length xs" using Cons.prems(2) by (simp add: j)
    then have "concat (map f xs) ! j = f (xs ! (j div n)) ! (j mod n)"
      using Cons.IH Cons.prems(1) by simp
    then show ?thesis
      by (simp add: nth_append lx d m) (simp add: j)
  qed
qed

lemma length_concat_blocks:
  "\<forall>x \<in> set xs. length (f x) = n \<Longrightarrow> length (concat (map f xs)) = n * length xs"
  by (induction xs) simp_all

lemma length_bit_lookup_row: "length (bit_lookup_row v) = 32"
  unfolding bit_lookup_row_def
  using length_concat_blocks[of "bit_lookup v" "le_bytes 8" 8]
  by (simp add: bit_lookup_def)

lemma div64_div8: "p div 8 div 8 = p div (64::nat)"
  by (simp add: div_mult2_eq[symmetric])

lemma chunk_bit_bit_lookup_row:
  assumes "v < 256" "p < 256"
  shows "chunk_bit (bit_lookup_row v) p \<longleftrightarrow> p = v"
proof -
  let ?lanes = "bit_lookup v"
  have ll: "length ?lanes = 4" by (simp add: bit_lookup_def)
  have p8: "p div 8 < 8 * length ?lanes" using assms(2) ll by simp
  have nth: "bit_lookup_row v ! (p div 8) = le_bytes 8 (?lanes ! (p div 64)) ! (p div 8 mod 8)"
    unfolding bit_lookup_row_def
    using nth_concat_blocks[of ?lanes "le_bytes 8" 8 "p div 8"] p8
    by (simp add: div64_div8)
  have e: "8 * (p div 8 mod 8) + p mod 8 = p mod 64"
  proof -
    have "p mod 64 = p mod 8 + 8 * (p div 8 mod 8)"
      using mod_mult2_eq[of p 8 8] by simp
    then show ?thesis by simp
  qed
  have "chunk_bit (bit_lookup_row v) p \<longleftrightarrow> bit (?lanes ! (p div 64)) (p mod 64)"
    by (simp add: chunk_bit_def nth bit_le_bytes e)
  also have "\<dots> \<longleftrightarrow> p div 64 = v div 64 \<and> p mod 64 = v mod 64"
  proof (cases "p div 64 = v div 64")
    case True
    have "v div 64 < 4" using assms(1) by simp
    then show ?thesis
      using True by (auto simp: bit_lookup_def bit_simps)
  next
    case False
    have "p div 64 < 4" using assms(2) by simp
    then show ?thesis
      using False by (simp add: bit_lookup_def)
  qed
  also have "\<dots> \<longleftrightarrow> p = v"
    by (metis div_mult_mod_eq)
  finally show ?thesis .
qed

lemma length_or [simp]: "length (mm256_or_si256 a b) = min (length a) (length b)"
  by (simp add: mm256_or_si256_def)

lemma chunk_bit_or:
  assumes "length a = 32" "length b = 32" "p < 256"
  shows "chunk_bit (mm256_or_si256 a b) p \<longleftrightarrow> chunk_bit a p \<or> chunk_bit b p"
proof -
  have "p div 8 < 32" using assms(3) by simp
  then show ?thesis
    using assms(1,2) by (simp add: chunk_bit_def mm256_or_si256_def bit_simps)
qed

lemma chunk_eqI:
  assumes "length a = 32" "length b = 32" "\<And>p. p < 256 \<Longrightarrow> chunk_bit a p = chunk_bit b p"
  shows "a = b"
proof (rule nth_equalityI)
  show "length a = length b" using assms(1,2) by simp
next
  fix i assume "i < length a"
  then have i: "i < 32" using assms(1) by simp
  show "a ! i = b ! i"
  proof (rule bit_eqI)
    fix n assume "possible_bit TYPE(u8) n"
    then have n: "n < 8" by simp
    have "8 * i + n < 256" using i n by simp
    moreover have "(8 * i + n) div 8 = i" "(8 * i + n) mod 8 = n" using n by simp_all
    ultimately show "bit (a ! i) n = bit (b ! i) n"
      using assms(3)[of "8 * i + n"] by (simp add: chunk_bit_def)
  qed
qed


section \<open>Expansion: from a payload to a chunk\<close>

lemma unat_u8_less: "unat (b :: u8) < 256"
  using unsigned_less[of b, where ?'a = nat] by simp

lemma scattered_zero: "scattered mm256_setzero_si256 {}"
  by (simp add: scattered_def mm256_setzero_si256_def chunk_bit_def)

lemma scattered_or:
  assumes "scattered R S"
  shows "scattered (mm256_or_si256 R (bit_lookup_row (unat (b :: u8)))) (insert (unat b) S)"
  using assms unat_u8_less[of b]
  by (auto simp: scattered_def length_bit_lookup_row chunk_bit_or chunk_bit_bit_lookup_row)

lemma read_positions_empty [simp]: "read_positions smem src a a = {}"
  by (simp add: read_positions_def)

lemma read_positions_Suc:
  "a \<le> b \<Longrightarrow> read_positions smem src a (Suc b) =
     insert (unat (smem ! (src + b))) (read_positions smem src a b)"
  by (simp add: read_positions_def atLeastLessThanSuc)

lemma read_positions_append:
  "a \<le> b \<Longrightarrow> b \<le> c \<Longrightarrow>
   read_positions smem src a b \<union> read_positions smem src b c = read_positions smem src a c"
  by (simp add: read_positions_def image_Un[symmetric] ivl_disj_un_two)

lemma read_positions_first:
  assumes "a < b"
  shows "read_positions smem src a b =
     insert (unat (smem ! (src + a))) (read_positions smem src (Suc a) b)"
proof -
  have "read_positions smem src a (Suc a) \<union> read_positions smem src (Suc a) b =
      read_positions smem src a b"
    by (rule read_positions_append) (use assms in simp_all)
  then show ?thesis
    by (simp add: read_positions_Suc)
qed


lemma expand_loop1_correct:
  assumes "src + n \<le> length smem" "i \<le> n" "scattered R S"
  shows "\<exists>R'. expand_loop1 smem src n i R = Some R' \<and>
           scattered R' (S \<union> read_positions smem src i n)"
  using assms
proof (induction "n - i" arbitrary: i R S)
  case 0
  then have "i = n" by simp
  then show ?case
    using "0.prems"(3) by (subst expand_loop1.simps) simp
next
  case (Suc k)
  then have lt: "i < n" by simp
  let ?s = "smem ! (src + i)"
  have rd: "read_u8 smem (src + i) = Some ?s"
    using lt Suc.prems(1) by (simp add: read_u8_def)
  let ?R1 = "mm256_or_si256 R (bit_lookup_row (unat ?s))"
  have s1: "scattered ?R1 (insert (unat ?s) S)"
    by (rule scattered_or[OF Suc.prems(3)])
  have "\<exists>R'. expand_loop1 smem src n (Suc i) ?R1 = Some R' \<and>
           scattered R' (insert (unat ?s) S \<union> read_positions smem src (Suc i) n)"
    by (rule Suc.hyps(1)) (use Suc.hyps(2) Suc.prems(1) lt s1 in simp_all)
  then obtain R' where r: "expand_loop1 smem src n (Suc i) ?R1 = Some R'"
    and s': "scattered R' (insert (unat ?s) S \<union> read_positions smem src (Suc i) n)"
    by blast
  have "expand_loop1 smem src n i R = Some R'"
    using lt r by (subst expand_loop1.simps) (simp add: rd)
  moreover have "insert (unat ?s) S \<union> read_positions smem src (Suc i) n =
      S \<union> read_positions smem src i n"
    by (simp add: read_positions_first[OF lt])
  ultimately show ?case using s' by simp
qed

lemma read_positions_4:
  "read_positions smem src i (i + 4) =
     {unat (smem ! (src + i)), unat (smem ! (src + i + 1)), unat (smem ! (src + i + 2)),
      unat (smem ! (src + i + 3))}"
proof -
  have e: "i + 4 = Suc (Suc (Suc (Suc i)))" by simp
  show ?thesis
    unfolding e
    by (simp add: read_positions_Suc insert_commute numeral_2_eq_2 numeral_3_eq_3)
qed

lemma expand_loop4_correct:
  assumes "src + n \<le> length smem" "i \<le> n" "scattered R S"
  shows "\<exists>i' R'. expand_loop4 smem src n i R = Some (i', R') \<and> i \<le> i' \<and> i' \<le> n \<and>
           scattered R' (S \<union> read_positions smem src i i')"
  using assms
proof (induction "n - i" arbitrary: i R S rule: less_induct)
  case less
  show ?case
  proof (cases "i + 4 \<le> n")
    case False
    then have "expand_loop4 smem src n i R = Some (i, R)"
      by (subst expand_loop4.simps) simp
    then show ?thesis
      using less.prems by simp
  next
    case True
    let ?s0 = "smem ! (src + i)" and ?s1 = "smem ! (src + i + 1)"
    let ?s2 = "smem ! (src + i + 2)" and ?s3 = "smem ! (src + i + 3)"
    have rd: "read_u8 smem (src + i) = Some ?s0" "read_u8 smem (src + i + 1) = Some ?s1"
      "read_u8 smem (src + i + 2) = Some ?s2" "read_u8 smem (src + i + 3) = Some ?s3"
      using True less.prems(1) by (simp_all add: read_u8_def)
    let ?R4 = "mm256_or_si256 (mm256_or_si256 (mm256_or_si256 (mm256_or_si256 R
        (bit_lookup_row (unat ?s0))) (bit_lookup_row (unat ?s1))) (bit_lookup_row (unat ?s2)))
        (bit_lookup_row (unat ?s3))"
    have s4: "scattered ?R4 (insert (unat ?s3) (insert (unat ?s2) (insert (unat ?s1)
        (insert (unat ?s0) S))))"
      by (intro scattered_or less.prems(3))
    have "\<exists>i' R'. expand_loop4 smem src n (i + 4) ?R4 = Some (i', R') \<and> i + 4 \<le> i' \<and> i' \<le> n \<and>
           scattered R' (insert (unat ?s3) (insert (unat ?s2) (insert (unat ?s1)
             (insert (unat ?s0) S))) \<union> read_positions smem src (i + 4) i')"
      by (rule less.hyps) (use True less.prems(1) s4 in simp_all)
    then obtain i' R' where r: "expand_loop4 smem src n (i + 4) ?R4 = Some (i', R')"
      and b: "i + 4 \<le> i'" "i' \<le> n"
      and s': "scattered R' (insert (unat ?s3) (insert (unat ?s2) (insert (unat ?s1)
             (insert (unat ?s0) S))) \<union> read_positions smem src (i + 4) i')"
      by blast
    have "expand_loop4 smem src n i R = Some (i', R')"
      using True r rd by (subst expand_loop4.simps) (simp add: Let_def)
    moreover have "insert (unat ?s3) (insert (unat ?s2) (insert (unat ?s1)
             (insert (unat ?s0) S))) \<union> read_positions smem src (i + 4) i' =
        S \<union> read_positions smem src i i'"
    proof -
      have "read_positions smem src i (i + 4) \<union> read_positions smem src (i + 4) i' =
          read_positions smem src i i'"
        by (rule read_positions_append) (use b in simp_all)
      then show ?thesis
        unfolding read_positions_4 by auto
    qed
    ultimately show ?thesis using s' b by auto
  qed
qed

lemma read_positions_set:
  assumes "src + k \<le> length smem"
  shows "read_positions smem src 0 k = unat ` set (take k (drop src smem))"
proof -
  have "take k (drop src smem) = map (\<lambda>j. smem ! (src + j)) [0..<k]"
    using assms by (intro nth_equalityI) simp_all
  then show ?thesis
    by (auto simp: read_positions_def)
qed

lemma expand_and_scatter_256_correct:
  assumes "src + k \<le> length smem" "dst + 32 \<le> length dmem"
  shows "\<exists>R. expand_and_scatter_256 smem src k dmem dst =
             Some (take dst dmem @ R @ drop (dst + 32) dmem) \<and>
           scattered R (unat ` set (take k (drop src smem)))"
proof -
  obtain i R1 where l4: "expand_loop4 smem src k 0 mm256_setzero_si256 = Some (i, R1)"
    and b: "i \<le> k" and s1: "scattered R1 ({} \<union> read_positions smem src 0 i)"
    using expand_loop4_correct[OF assms(1) _ scattered_zero, of 0] by auto
  obtain R where l1: "expand_loop1 smem src k i R1 = Some R"
    and s: "scattered R ({} \<union> read_positions smem src 0 i \<union> read_positions smem src i k)"
    using expand_loop1_correct[OF assms(1) b s1] by blast
  have "read_positions smem src 0 i \<union> read_positions smem src i k = read_positions smem src 0 k"
    by (rule read_positions_append) (use b in simp_all)
  then have sc: "scattered R (unat ` set (take k (drop src smem)))"
    using s by (simp add: read_positions_set[OF assms(1)] Un_assoc)
  then have lR: "length R = 32" by (simp add: scattered_def)
  have "expand_and_scatter_256 smem src k dmem dst = Some (take dst dmem @ R @ drop (dst + 32) dmem)"
    using assms(2) by (simp add: expand_and_scatter_256_def l4 l1 storeu_def lR)
  with sc show ?thesis by blast
qed


section \<open>One record of the decoder\<close>

lemma xor_ones_eq_map_not:
  assumes "length R = 32"
  shows "mm256_xor_si256 R (mm256_set1_epi8 0xFF) = map NOT R"
proof (rule nth_equalityI)
  show "length (mm256_xor_si256 R (mm256_set1_epi8 0xFF)) = length (map NOT R)"
    using assms by simp
next
  fix i assume "i < length (mm256_xor_si256 R (mm256_set1_epi8 0xFF))"
  then have i: "i < 32" using assms by simp
  have "R ! i XOR - 1 = NOT (R ! i)"
    by (rule bit_eqI) (simp add: bit_simps)
  then show "mm256_xor_si256 R (mm256_set1_epi8 0xFF) ! i = map NOT R ! i"
    using i assms by (simp add: mm256_xor_si256_def mm256_set1_epi8_def u8_255)
qed

lemma loadu_stored:
  assumes "dd + 32 \<le> length out" "length R = 32"
  shows "loadu (take dd out @ R @ drop (dd + 32) out) dd 32 = Some R"
  using assms by (simp add: loadu_def)

lemma storeu_stored:
  assumes "dd + 32 \<le> length out" "length R = 32" "length R' = 32"
  shows "storeu (take dd out @ R @ drop (dd + 32) out) dd R' =
         Some (take dd out @ R' @ drop (dd + 32) out)"
  using assms by (simp add: storeu_def)

lemma decompress_step_sparse:
  assumes "cd < endp" "cd < length cdat" "drop_bit 6 (cdat ! cd) = 0"
    and "cd + 1 + unat (cdat ! cd AND 0x3F) \<le> length cdat" "dd + 32 \<le> length out"
  shows "\<exists>R. scattered R (unat ` set (take (unat (cdat ! cd AND 0x3F)) (drop (cd + 1) cdat))) \<and>
           decompress_loop cdat endp cd out dd =
           decompress_loop cdat endp (cd + 1 + unat (cdat ! cd AND 0x3F))
             (take dd out @ R @ drop (dd + 32) out) (dd + 32)"
proof -
  let ?k = "unat (cdat ! cd AND 0x3F)"
  obtain R where e: "expand_and_scatter_256 cdat (cd + 1) ?k out dd =
      Some (take dd out @ R @ drop (dd + 32) out)"
    and s: "scattered R (unat ` set (take ?k (drop (cd + 1) cdat)))"
    using expand_and_scatter_256_correct[of "cd + 1" ?k cdat dd out] assms(4,5) by auto
  have "decompress_loop cdat endp cd out dd =
           decompress_loop cdat endp (cd + 1 + ?k) (take dd out @ R @ drop (dd + 32) out) (dd + 32)"
    using assms(1,2,3) e by (subst decompress_loop.simps) (simp add: read_u8_def Let_def)
  with s show ?thesis by blast
qed

lemma decompress_step_dense:
  assumes "cd < endp" "cd < length cdat" "drop_bit 6 (cdat ! cd) = 1"
    and "cd + 1 + unat (cdat ! cd AND 0x3F) \<le> length cdat" "dd + 32 \<le> length out"
  shows "\<exists>R. scattered R (unat ` set (take (unat (cdat ! cd AND 0x3F)) (drop (cd + 1) cdat))) \<and>
           decompress_loop cdat endp cd out dd =
           decompress_loop cdat endp (cd + 1 + unat (cdat ! cd AND 0x3F))
             (take dd out @ map NOT R @ drop (dd + 32) out) (dd + 32)"
proof -
  let ?k = "unat (cdat ! cd AND 0x3F)"
  obtain R where e: "expand_and_scatter_256 cdat (cd + 1) ?k out dd =
      Some (take dd out @ R @ drop (dd + 32) out)"
    and s: "scattered R (unat ` set (take ?k (drop (cd + 1) cdat)))"
    using expand_and_scatter_256_correct[of "cd + 1" ?k cdat dd out] assms(4,5) by auto
  have lR: "length R = 32" using s by (simp add: scattered_def)
  have ld: "loadu (take dd out @ R @ drop (dd + 32) out) dd 32 = Some R"
    by (rule loadu_stored[OF assms(5) lR])
  have st: "storeu (take dd out @ R @ drop (dd + 32) out) dd (map NOT R) =
      Some (take dd out @ map NOT R @ drop (dd + 32) out)"
    by (rule storeu_stored[OF assms(5) lR]) (simp add: lR)
  have "decompress_loop cdat endp cd out dd =
           decompress_loop cdat endp (cd + 1 + ?k) (take dd out @ map NOT R @ drop (dd + 32) out) (dd + 32)"
    using assms(1,2,3) e ld st
    by (subst decompress_loop.simps) (simp add: read_u8_def Let_def xor_ones_eq_map_not[OF lR])
  with s show ?thesis by blast
qed

lemma decompress_step_raw:
  assumes "cd < endp" "cd < length cdat" "drop_bit 6 (cdat ! cd) = 2"
    and "cd + 1 + 32 \<le> length cdat" "dd + 32 \<le> length out"
  shows "decompress_loop cdat endp cd out dd =
           decompress_loop cdat endp (cd + 1 + unat (cdat ! cd AND 0x3F))
             (take dd out @ take 32 (drop (cd + 1) cdat) @ drop (dd + 32) out) (dd + 32)"
  using assms
  by (subst decompress_loop.simps) (simp add: read_u8_def Let_def loadu_def storeu_def)

lemma decompress_loop_done: "\<not> cd < endp \<Longrightarrow> decompress_loop cdat endp cd out dd = Some out"
  by (subst decompress_loop.simps) simp

lemma u8_cat_numerals: "(of_nat 0 :: u8) = 0" "(of_nat 1 :: u8) = 1" "(of_nat 2 :: u8) = 2"
  by simp_all

lemma scattered_bits:
  "scattered R S \<Longrightarrow> p < 256 \<Longrightarrow> bit (R ! (p div 8)) (p mod 8) \<longleftrightarrow> p \<in> S"
  by (simp add: scattered_def chunk_bit_def)

section \<open>Decoding the records of a frame\<close>

lemma set_zero_positions: "set (zero_positions c) = {p. p < 256 \<and> \<not> chunk_bit c p}"
  by (auto simp: zero_positions_def)

lemma unat_image_positions:
  assumes "\<forall>p \<in> set ps. p < 256"
  shows "unat ` set (map of_nat ps :: u8 list) = set ps"
proof -
  have "set (map unat (map of_nat ps :: u8 list)) = set ps"
    by (simp only: map_unat_positions[OF assms])
  then show ?thesis by (simp add: image_image)
qed

lemma chunk_bit_map_not:
  assumes "length R = 32" "p < 256"
  shows "chunk_bit (map NOT R) p \<longleftrightarrow> \<not> chunk_bit R p"
proof -
  have "p div 8 < 32" using assms(2) by simp
  then show ?thesis
    using assms(1) by (simp add: chunk_bit_def bit_simps)
qed

lemma decode_record:
  assumes "length c = 32" "cd = length A" "cd < endp" "dd + 32 \<le> length out"
  shows "decompress_loop (A @ chunk_record c @ B) endp cd out dd =
         decompress_loop (A @ chunk_record c @ B) endp (cd + length (chunk_record c))
           (take dd out @ c @ drop (dd + 32) out) (dd + 32)"
proof -
  let ?s = "A @ chunk_record c @ B"
  have ne: "chunk_record c \<noteq> []"
    by (simp add: chunk_record_cases)
  have hd: "?s ! cd = hd (chunk_record c)"
    using ne by (simp add: assms(2) nth_append hd_conv_nth)
  have inb: "cd < length ?s"
    using ne by (simp add: assms(2))
  have pay: "take (length (tl (chunk_record c))) (drop (cd + 1) ?s) = tl (chunk_record c)"
    using ne by (cases "chunk_record c") (simp_all add: assms(2))
  have fits: "cd + 1 + length (tl (chunk_record c)) \<le> length ?s"
    using ne by (cases "chunk_record c") (simp_all add: assms(2))
  consider (sparse) "popcount c < 32" | (dense) "\<not> popcount c < 32" "224 < popcount c"
    | (raw) "\<not> popcount c < 32" "\<not> 224 < popcount c"
    by blast
  then show ?thesis
  proof cases
    case sparse
    have rec: "chunk_record c = header_byte 0 (popcount c) # map of_nat (one_positions c)"
      using sparse by (simp add: chunk_record_cases)
    have k: "unat (?s ! cd AND 0x3F) = popcount c"
      using sparse header_byte_length[of "popcount c" 0] hd
      by (simp add: rec unat_of_nat_u8)
    have cat: "drop_bit 6 (?s ! cd) = 0"
      using sparse header_byte_category[of "popcount c" 0] hd by (simp add: rec)
    have lt: "length (tl (chunk_record c)) = popcount c"
      by (simp add: rec popcount_def)
    obtain R where s: "scattered R (unat ` set (take (popcount c) (drop (cd + 1) ?s)))"
      and d: "decompress_loop ?s endp cd out dd =
           decompress_loop ?s endp (cd + 1 + popcount c) (take dd out @ R @ drop (dd + 32) out) (dd + 32)"
      using decompress_step_sparse[OF assms(3) inb cat _ assms(4)] fits
      unfolding k lt by blast
    have tk: "take (popcount c) (drop (cd + 1) ?s) = map of_nat (one_positions c)"
      using pay unfolding lt by (simp add: rec)
    have im: "unat ` set (map of_nat (one_positions c) :: u8 list) = set (one_positions c)"
      by (rule unat_image_positions) (simp add: one_positions_def)
    have "scattered R (set (one_positions c))"
      using s unfolding tk im .
    then have "R = c"
      by (intro chunk_eqI) (auto simp: scattered_def assms(1) one_positions_def)
    then show ?thesis
      using d by (simp add: rec popcount_def)
  next
    case dense
    have rec: "chunk_record c = header_byte 1 (256 - popcount c) # map of_nat (zero_positions c)"
      using dense by (simp add: chunk_record_cases)
    have k: "unat (?s ! cd AND 0x3F) = 256 - popcount c"
      using dense header_byte_length[of "256 - popcount c" 1] hd
      by (simp add: rec unat_of_nat_u8)
    have cat: "drop_bit 6 (?s ! cd) = 1"
      using dense header_byte_category[of "256 - popcount c" 1] hd by (simp add: rec)
    have lt: "length (tl (chunk_record c)) = 256 - popcount c"
      by (simp add: rec length_zero_positions)
    obtain R where s: "scattered R (unat ` set (take (256 - popcount c) (drop (cd + 1) ?s)))"
      and d: "decompress_loop ?s endp cd out dd =
           decompress_loop ?s endp (cd + 1 + (256 - popcount c))
             (take dd out @ map NOT R @ drop (dd + 32) out) (dd + 32)"
      using decompress_step_dense[OF assms(3) inb cat _ assms(4)] fits
      unfolding k lt by blast
    have tk: "take (256 - popcount c) (drop (cd + 1) ?s) = map of_nat (zero_positions c)"
      using pay unfolding lt by (simp add: rec)
    have im: "unat ` set (map of_nat (zero_positions c) :: u8 list) = set (zero_positions c)"
      by (rule unat_image_positions) (simp add: zero_positions_def)
    have sz: "scattered R (set (zero_positions c))"
      using s unfolding tk im .
    then have lR: "length R = 32" by (simp add: scattered_def)
    have "map NOT R = c"
    proof (rule chunk_eqI)
      show "length (map NOT R) = 32" by (simp add: lR)
      show "length c = 32" by (rule assms(1))
      fix p :: nat assume p: "p < 256"
      show "chunk_bit (map NOT R) p = chunk_bit c p"
        using sz p by (simp add: chunk_bit_map_not[OF lR p] scattered_def set_zero_positions)
    qed
    then show ?thesis
      using d by (simp add: rec length_zero_positions)
  next
    case raw
    have rec: "chunk_record c = header_byte 2 32 # c"
      using raw by (simp add: chunk_record_cases)
    have k: "unat (?s ! cd AND 0x3F) = 32"
      using header_byte_length[of 32 2] hd by (simp add: rec)
    have cat: "drop_bit 6 (?s ! cd) = 2"
      using header_byte_category[of 32 2] hd by (simp add: rec)
    have "cd + 1 + 32 \<le> length ?s"
      by (simp add: assms(1,2) rec)
    from decompress_step_raw[OF assms(3) inb cat this assms(4)]
    show ?thesis
      unfolding k by (simp add: rec assms(1,2) add.commute)
  qed
qed

lemma decode_records:
  assumes "\<forall>c \<in> set cs. length c = 32" "dd + 32 * length cs \<le> length out"
    and "endp = length A + length (concat (map chunk_record cs))"
  shows "decompress_loop (A @ concat (map chunk_record cs) @ B) endp (length A) out dd =
         Some (take dd out @ concat cs @ drop (dd + 32 * length cs) out)"
  using assms
proof (induction cs arbitrary: A out dd)
  case Nil
  then show ?case by (simp add: decompress_loop_done)
next
  case (Cons c cs)
  let ?r = "chunk_record c"
  let ?rest = "concat (map chunk_record cs)"
  have lc: "length c = 32" using Cons.prems(1) by simp
  have lr: "1 \<le> length ?r" using length_chunk_record[OF lc] by simp
  have "endp = length A + length ?r + length ?rest" using Cons.prems(3) by simp
  then have lt: "length A < endp" using lr by linarith
  have dd: "dd + 32 \<le> length out" using Cons.prems(2) by simp
  let ?out1 = "take dd out @ c @ drop (dd + 32) out"
  have l1: "length ?out1 = length out" using dd lc by simp
  have step: "decompress_loop (A @ ?r @ (?rest @ B)) endp (length A) out dd =
      decompress_loop (A @ ?r @ (?rest @ B)) endp (length A + length ?r) ?out1 (dd + 32)"
    by (rule decode_record[OF lc refl lt dd])
  have "decompress_loop ((A @ ?r) @ ?rest @ B) endp (length (A @ ?r)) ?out1 (dd + 32) =
      Some (take (dd + 32) ?out1 @ concat cs @ drop (dd + 32 + 32 * length cs) ?out1)"
    by (rule Cons.IH) (use Cons.prems l1 in simp_all)
  moreover have "take (dd + 32) ?out1 = take dd out @ c"
    using dd lc by simp
  moreover have "drop (dd + 32 + 32 * length cs) ?out1 = drop (dd + 32 + 32 * length cs) out"
    using dd lc by (simp add: ac_simps)
  ultimately show ?case
    using step by (simp add: add.assoc)
qed

lemma concat_chunks:
  assumes "length buf = 32 * n"
  shows "concat (chunks buf n) = buf"
  using assms
proof (induction n arbitrary: buf rule: nat.induct)
  case zero
  then show ?case by (simp add: chunks_def)
next
  case (Suc n)
  have ih: "concat (chunks (take (32 * n) buf) n) = take (32 * n) buf"
    by (rule Suc.IH) (use Suc.prems in simp)
  have "map (chunk_at (take (32 * n) buf)) [0..<n] = map (chunk_at buf) [0..<n]"
    by (rule map_cong) (simp_all add: chunk_at_def take_drop)
  then have same: "chunks (take (32 * n) buf) n = chunks buf n"
    by (simp add: chunks_def)
  have last: "chunk_at buf n = drop (32 * n) buf"
    using Suc.prems by (simp add: chunk_at_def)
  have "chunks buf (Suc n) = chunks buf n @ [chunk_at buf n]"
    by (simp add: chunks_def)
  then show ?case
    using ih by (simp add: same last)
qed


section \<open>Round trip of a context that is compressed whole\<close>

lemma length_chunks [simp]: "length (chunks buf n) = n"
  by (simp add: chunks_def)

lemma round_trip_full_context:
  assumes "vm_wf vm" "32 * unat (num_buckets vm) \<le> length buf"
  shows "\<exists>vm' n. vitemap_compress vm sz = Some (vm', n) \<and>
           vitemap_decompress (take (unat n) (output vm')) n buf =
             Some (input vm @ drop (32 * unat (num_buckets vm)) buf) \<and>
           vitemap_decompress (output vm') n buf =
             Some (input vm @ drop (32 * unat (num_buckets vm)) buf)"
proof -
  let ?n = "unat (num_buckets vm)"
  let ?cs = "chunks (input vm) ?n"
  let ?F = "frame sz ?cs"
  obtain out' h' where c: "vitemap_compress vm sz =
      Some (vm\<lparr>output := out', helper_bucket := h'\<rparr>, of_nat (length ?F))"
    and t: "take (length ?F) out' = ?F"
    and u: "unat (of_nat (length ?F) :: u32) = length ?F"
    using vitemap_compress_frame[OF assms(1), of sz] by blast
  have li: "length (input vm) = 32 * ?n"
    using assms(1) by (simp add: vm_wf_def)
  have cc: "concat ?cs = input vm"
    by (rule concat_chunks[OF li])
  have l32: "\<forall>c \<in> set ?cs. length c = 32"
    using vm_wf_chunks[OF assms(1)] by blast
  have dec: "decompress_loop cdat (length ?F) 4 buf 0 = Some (input vm @ drop (32 * ?n) buf)"
    if "cdat = le_bytes 4 sz @ concat (map chunk_record ?cs) @ B" for cdat B
  proof -
    have "decompress_loop (le_bytes 4 sz @ concat (map chunk_record ?cs) @ B) (length ?F)
        (length (le_bytes 4 sz)) buf 0 =
        Some (take 0 buf @ concat ?cs @ drop (0 + 32 * length ?cs) buf)"
      by (rule decode_records[OF l32]) (use assms(2) in \<open>simp_all add: frame_def\<close>)
    then show ?thesis
      unfolding that by (simp add: cc)
  qed
  have d1: "vitemap_decompress ?F (of_nat (length ?F)) buf = Some (input vm @ drop (32 * ?n) buf)"
    unfolding vitemap_decompress_def u by (rule dec[of _ "[]"]) (simp add: frame_def)
  have "out' = ?F @ drop (length ?F) out'"
    using append_take_drop_id[of "length ?F" out'] by (simp only: t)
  then have o: "out' = le_bytes 4 sz @ concat (map chunk_record ?cs) @ drop (length ?F) out'"
    by (simp add: frame_def)
  have d2: "vitemap_decompress out' (of_nat (length ?F)) buf = Some (input vm @ drop (32 * ?n) buf)"
    unfolding vitemap_decompress_def u by (rule dec[OF o])
  show ?thesis
    apply (rule exI[of _ "vm\<lparr>output := out', helper_bucket := h'\<rparr>"])
    apply (rule exI[of _ "of_nat (length ?F)"])
    using c d1 d2 by (simp add: u t)
qed

lemma round_trip_exact_size:
  assumes "vm_wf vm" "length x = unat sz" "(unat sz + 31) div 32 = unat (num_buckets vm)"
    and "input vm = x @ replicate ((unat sz + 31) div 32 * 32 - unat sz) 0"
    and "(unat sz + 31) div 32 * 32 \<le> length buf"
  shows "\<exists>vm' n. vitemap_compress vm sz = Some (vm', n) \<and>
           vitemap_decompress (take (unat n) (output vm')) n buf =
             Some (x @ replicate ((unat sz + 31) div 32 * 32 - unat sz) 0 @
                   drop ((unat sz + 31) div 32 * 32) buf)"
proof -
  have "32 * unat (num_buckets vm) \<le> length buf"
    using assms(3,5) by simp
  from round_trip_full_context[OF assms(1) this, of sz] show ?thesis
    unfolding assms(4) using assms(3) by (auto simp: mult.commute)
qed

section \<open>Contexts\<close>

text \<open>
  \<^verbatim>\<open>vitemap_create\<close> establishes \<open>vm_wf\<close> for every upper size up to \<open>2^31 - 32\<close>;
  beyond it the 32-bit computation of \<open>max_compressed_size\<close> wraps.
\<close>

lemma unat_round_up:
  assumes "unat (sz :: u32) + 31 < 2 ^ 32"
  shows "unat (sz div 32 + (if sz mod 32 > 0 then 1 else 0)) = (unat sz + 31) div 32"
proof -
  define a b :: u32 where "a = sz div 32" and "b = (if sz mod 32 > 0 then 1 else 0)"
  have ua: "unat a = unat sz div 32"
    by (simp add: a_def unat_div)
  have ub: "unat b = (if 0 < unat sz mod 32 then 1 else 0)"
    by (simp add: b_def word_less_nat_alt unat_mod)
  have s: "unat a + unat b = (unat sz + 31) div 32"
    unfolding ua ub by (rule ceil32)
  have "unat a + unat b < 2 ^ LENGTH(32)"
    unfolding s using assms by simp
  then have "unat (a + b) = (unat sz + 31) div 32"
    using s by (simp only: unat_add_lem[THEN iffD1])
  then show ?thesis
    unfolding a_def b_def .
qed

lemma calloc_Some: "calloc avail n = Some b \<longleftrightarrow> avail n \<and> b = replicate n 0"
  by (auto simp: calloc_def)

lemma vitemap_create_wf:
  assumes "vitemap_create avail U = Some vm" "unat U \<le> 2 ^ 31 - 32"
  shows "vm_wf vm \<and> unat (num_buckets vm) = (unat U + 31) div 32 \<and>
         input vm = replicate (32 * unat (num_buckets vm)) 0"
proof -
  define nb :: u32 where "nb = U div 32 + (if U mod 32 > 0 then 1 else 0)"
  have unb: "unat nb = (unat U + 31) div 32"
    unfolding nb_def by (rule unat_round_up) (use assms(2) in simp)
  have b: "unat nb < 2 ^ 26"
    unfolding unb using assms(2) by simp
  have "unat nb * unat (32 :: u32) < 2 ^ LENGTH(32)"
    using b by simp
  then have ums: "unat (nb * 32) = 32 * unat nb"
    by (simp only: unat_mult_lem[THEN iffD1]) simp
  have mcs: "64 * nb + 4 = of_nat (4 + 64 * unat nb)"
    by simp
  have umcs: "unat (64 * nb + 4) = 4 + 64 * unat nb"
    unfolding mcs by (rule unat_of_nat_u32) (use b in simp)
  have mcs2: "36 + 64 * nb = of_nat (36 + 64 * unat nb)"
    by simp
  have umcs2: "unat (36 + 64 * nb) = 36 + 64 * unat nb"
    unfolding mcs2 by (rule unat_of_nat_u32) (use b in simp)
  from assms(1)[unfolded vitemap_create_def Let_def, folded nb_def] have vm: "vm = \<lparr> input = replicate (unat (nb * 32)) 0, max_size = nb * 32,
      num_buckets = nb, output = replicate (unat (4 + nb * 32 + nb * 32 + 32)) 0,
      max_compressed_size = 4 + nb * 32 + nb * 32, output_size = 0,
      helper_bucket = replicate 32 0 \<rparr>"
    by (auto simp: calloc_Some split: option.splits Option.bind_splits)
  show ?thesis
    unfolding vm by (simp add: vm_wf_def ums umcs umcs2 unb)
qed



lemma create_32: "vitemap_create (\<lambda>_. True) 32 = Some (context_32 (replicate 32 0))"
  by (simp add: vitemap_create_def calloc_def context_32_def)

lemma create_64: "vitemap_create (\<lambda>_. True) 64 = Some (context_64 (replicate 64 0))"
  by (simp add: vitemap_create_def calloc_def context_64_def)

lemma context_32_wf: "length x = 32 \<Longrightarrow> vm_wf (context_32 x)"
  by (simp add: vm_wf_def context_32_def)

lemma context_64_wf: "length x = 64 \<Longrightarrow> vm_wf (context_64 x)"
  by (simp add: vm_wf_def context_64_def)

section \<open>Claims\<close>

subsection \<open>C5: the raw-chunk wire example\<close>

text \<open>
  Claim C5, as the specification states it (scenario S4): compressing 32 bytes of \<open>0xAA\<close> gives
  the prefix \<open>20 00 00 00\<close>, the header byte \<open>0x9F\<close> and the 32 bytes \<open>0xAA\<close>. The encoder
  does not produce that frame.
\<close>

theorem raw_example_header_is_not_9F:
  "compressed_frame (vitemap_compress (context_32 (replicate 32 0xAA)) 32) \<noteq>
     Some ([0x20, 0, 0, 0, 0x9F] @ replicate 32 0xAA)"
  by code_simp

text \<open>
  Claim C5, amended: the frame is 37 bytes long and consists of the prefix \<open>20 00 00 00\<close>, the
  header byte \<open>0xA0\<close> (category \<open>10\<close>, length 32) and the 32 bytes \<open>0xAA\<close>.
\<close>

theorem raw_example_frame:
  "compressed_frame (vitemap_compress (context_32 (replicate 32 0xAA)) 32) =
     Some ([0x20, 0, 0, 0, 0xA0] @ replicate 32 0xAA) \<and>
   map_option snd (vitemap_compress (context_32 (replicate 32 0xAA)) 32) = Some 37 \<and>
   drop_bit 6 (0xA0 :: u8) = 2 \<and> (0xA0 :: u8) AND 0x3F = 32"
  by code_simp

subsection \<open>C2: the classifier\<close>

text \<open>
  Claim C2: for every 32-byte chunk of the input with population count \<open>c\<close> the encoder emits
  exactly one record, chosen by a rule that partitions \<open>[0, 256]\<close>: for \<open>c < 32\<close> a header
  with category bits \<open>00\<close> and length field \<open>c\<close>, followed by the \<open>c\<close> positions of the set
  bits; for \<open>c > 224\<close> a header with category bits \<open>01\<close> and length field \<open>256 - c\<close>, followed
  by the \<open>256 - c\<close> positions of the clear bits; otherwise a header with category bits \<open>10\<close>
  and length field 32, followed by the 32 bytes of the chunk. The frame is the size prefix
  followed by these records in input order.
\<close>

theorem classifier_partition:
  assumes "vm_wf vm"
  shows "compressed_frame (vitemap_compress vm sz) =
           Some (le_bytes 4 sz @ concat (map chunk_record (chunks (input vm) (unat (num_buckets vm))))) \<and>
         (\<forall>c \<in> set (chunks (input vm) (unat (num_buckets vm))).
            length c = 32 \<and> popcount c \<le> 256 \<and>
            (if popcount c < 32 then
               chunk_record c = header_byte 0 (popcount c) # map of_nat (one_positions c) \<and>
               length (one_positions c) = popcount c \<and>
               drop_bit 6 (header_byte 0 (popcount c)) = 0 \<and>
               header_byte 0 (popcount c) AND 0x3F = of_nat (popcount c)
             else if 224 < popcount c then
               chunk_record c = header_byte 1 (256 - popcount c) # map of_nat (zero_positions c) \<and>
               length (zero_positions c) = 256 - popcount c \<and>
               drop_bit 6 (header_byte 1 (256 - popcount c)) = 1 \<and>
               header_byte 1 (256 - popcount c) AND 0x3F = of_nat (256 - popcount c)
             else
               chunk_record c = header_byte 2 32 # c \<and>
               drop_bit 6 (header_byte 2 32) = 2 \<and> header_byte 2 32 AND 0x3F = 32))"
proof (intro conjI ballI)
  show "compressed_frame (vitemap_compress vm sz) =
      Some (le_bytes 4 sz @ concat (map chunk_record (chunks (input vm) (unat (num_buckets vm)))))"
    using compressed_frame_eq[OF assms] by (simp add: frame_def)
next
  fix c assume c: "c \<in> set (chunks (input vm) (unat (num_buckets vm)))"
  show "length c = 32" by (rule vm_wf_chunks[OF assms c])
  show "popcount c \<le> 256" by (rule popcount_le)
  show "if popcount c < 32 then
               chunk_record c = header_byte 0 (popcount c) # map of_nat (one_positions c) \<and>
               length (one_positions c) = popcount c \<and>
               drop_bit 6 (header_byte 0 (popcount c)) = 0 \<and>
               header_byte 0 (popcount c) AND 0x3F = of_nat (popcount c)
             else if 224 < popcount c then
               chunk_record c = header_byte 1 (256 - popcount c) # map of_nat (zero_positions c) \<and>
               length (zero_positions c) = 256 - popcount c \<and>
               drop_bit 6 (header_byte 1 (256 - popcount c)) = 1 \<and>
               header_byte 1 (256 - popcount c) AND 0x3F = of_nat (256 - popcount c)
             else
               chunk_record c = header_byte 2 32 # c \<and>
               drop_bit 6 (header_byte 2 32) = 2 \<and> header_byte 2 32 AND 0x3F = 32"
    using header_byte_category[of "popcount c" 0] header_byte_length[of "popcount c" 0]
      header_byte_category[of "256 - popcount c" 1] header_byte_length[of "256 - popcount c" 1]
      header_byte_category[of 32 2] header_byte_length[of 32 2]
    by (simp add: chunk_record_cases length_zero_positions popcount_def[symmetric])
qed


text \<open>
  Witness for C2: a two-chunk context whose first chunk has 254 set bits (scenario S6) and
  whose second chunk is 32 bytes of \<open>0xAA\<close>.
\<close>

theorem classifier_partition_witness:
  "vm_wf (context_64 ((replicate 32 0xFF)[0 := 0x7F, 31 := 0xFE] @ replicate 32 0xAA)) \<and>
   compressed_frame
     (vitemap_compress (context_64 ((replicate 32 0xFF)[0 := 0x7F, 31 := 0xFE] @ replicate 32 0xAA)) 64) =
     Some ([0x40, 0, 0, 0, 0x42, 0x07, 0xF8, 0xA0] @ replicate 32 0xAA)"
proof -
  let ?vm = "context_64 ((replicate 32 0xFF)[0 := 0x7F, 31 := 0xFE] @ replicate 32 0xAA)"
  have wf: "vm_wf ?vm"
    by (rule context_64_wf) simp
  have ev: "le_bytes 4 (64 :: u32) @
      concat (map chunk_record (chunks (input ?vm) (unat (num_buckets ?vm)))) =
      [0x40, 0, 0, 0, 0x42, 0x07, 0xF8, 0xA0] @ replicate 32 0xAA"
    by code_simp
  show ?thesis
    using classifier_partition[OF wf, of 64] wf by (simp only: ev)
qed

subsection \<open>C9: the size of a record\<close>

text \<open>
  Claim C9: every record the encoder emits for a 32-byte chunk (one header byte and the
  payload) is at most 33 bytes long; the length field of its header byte is the length of the
  payload and lies in \<open>[0, 32]\<close>.
\<close>

theorem chunk_record_bound:
  assumes "vm_wf vm"
  shows "compressed_frame (vitemap_compress vm sz) =
           Some (le_bytes 4 sz @ concat (map chunk_record (chunks (input vm) (unat (num_buckets vm))))) \<and>
         (\<forall>c \<in> set (chunks (input vm) (unat (num_buckets vm))).
            length (chunk_record c) \<le> 33 \<and>
            length (chunk_record c) = 1 + unat (hd (chunk_record c) AND 0x3F) \<and>
            unat (hd (chunk_record c) AND 0x3F) \<le> 32)"
proof (intro conjI ballI)
  show "compressed_frame (vitemap_compress vm sz) =
      Some (le_bytes 4 sz @ concat (map chunk_record (chunks (input vm) (unat (num_buckets vm)))))"
    using compressed_frame_eq[OF assms] by (simp add: frame_def)
next
  fix c assume c: "c \<in> set (chunks (input vm) (unat (num_buckets vm)))"
  have lc: "length c = 32" by (rule vm_wf_chunks[OF assms c])
  show "length (chunk_record c) \<le> 33"
    using length_chunk_record[OF lc] by simp
  show len: "length (chunk_record c) = 1 + unat (hd (chunk_record c) AND 0x3F)"
    using header_byte_length[of "popcount c" 0] header_byte_length[of "256 - popcount c" 1]
      header_byte_length[of 32 2] lc
    by (simp add: chunk_record_cases length_zero_positions popcount_def[symmetric] unat_of_nat_u8)
  show "unat (hd (chunk_record c) AND 0x3F) \<le> 32"
    using length_chunk_record[OF lc] len by simp
qed


text \<open>Witness for C9: the context of one chunk with all 256 bits set (scenario S2).\<close>

theorem chunk_record_bound_witness:
  "vm_wf (context_32 (replicate 32 0xFF)) \<and>
   compressed_frame (vitemap_compress (context_32 (replicate 32 0xFF)) 32) =
     Some [0x20, 0, 0, 0, 0x40] \<and>
   length (chunk_record (replicate 32 0xFF)) \<le> 33 \<and>
   unat (hd (chunk_record (replicate 32 0xFF)) AND 0x3F) \<le> 32"
proof -
  let ?vm = "context_32 (replicate 32 0xFF)"
  have wf: "vm_wf ?vm"
    by (rule context_32_wf) simp
  have ev: "le_bytes 4 (32 :: u32) @
      concat (map chunk_record (chunks (input ?vm) (unat (num_buckets ?vm)))) =
      [0x20, 0, 0, 0, 0x40]"
    by code_simp
  have mem: "replicate 32 0xFF \<in> set (chunks (input ?vm) (unat (num_buckets ?vm)))"
    by (simp add: context_32_def chunks_def chunk_at_def)
  show ?thesis
    using chunk_record_bound[OF wf, of 32] wf mem unfolding ev by blast
qed

subsection \<open>C7: the payload of a sparse record\<close>

text \<open>
  Claim C7: in every record with category bits \<open>00\<close> that the encoder emits, the payload
  lists the positions of the set bits of the chunk in strictly ascending order; a position is
  \<open>byte_index * 8 + bit_index\<close> with bits numbered from the least significant one, and lies in
  \<open>[0, 255]\<close>. In particular the 32-byte input that is zero except for byte 15, which is
  \<open>0x10\<close>, compresses to \<open>20 00 00 00 01 7C\<close> (scenario S3).
\<close>

theorem sparse_payload_ascending:
  assumes "vm_wf vm"
  shows "compressed_frame (vitemap_compress vm sz) =
           Some (le_bytes 4 sz @ concat (map chunk_record (chunks (input vm) (unat (num_buckets vm))))) \<and>
         (\<forall>c \<in> set (chunks (input vm) (unat (num_buckets vm))).
            drop_bit 6 (hd (chunk_record c)) = 0 \<longrightarrow>
              map unat (tl (chunk_record c)) =
                filter (\<lambda>p. bit (c ! (p div 8)) (p mod 8)) [0..<256] \<and>
              sorted_wrt (<) (map unat (tl (chunk_record c))) \<and>
              (\<forall>p \<in> set (map unat (tl (chunk_record c))). p \<le> 255) \<and>
              unat (hd (chunk_record c) AND 0x3F) = length (tl (chunk_record c))) \<and>
         compressed_frame (vitemap_compress (context_32 ((replicate 32 0)[15 := 0x10])) 32) =
           Some [0x20, 0, 0, 0, 0x01, 0x7C]"
proof -
  have fr: "compressed_frame (vitemap_compress vm sz) =
      Some (le_bytes 4 sz @ concat (map chunk_record (chunks (input vm) (unat (num_buckets vm)))))"
    using compressed_frame_eq[OF assms] by (simp add: frame_def)
  have ex: "compressed_frame (vitemap_compress (context_32 ((replicate 32 0)[15 := 0x10])) 32) =
           Some [0x20, 0, 0, 0, 0x01, 0x7C]"
    by code_simp
  have "map unat (tl (chunk_record c)) =
                filter (\<lambda>p. bit (c ! (p div 8)) (p mod 8)) [0..<256] \<and>
              sorted_wrt (<) (map unat (tl (chunk_record c))) \<and>
              (\<forall>p \<in> set (map unat (tl (chunk_record c))). p \<le> 255) \<and>
              unat (hd (chunk_record c) AND 0x3F) = length (tl (chunk_record c))"
    if c: "c \<in> set (chunks (input vm) (unat (num_buckets vm)))"
      and cat: "drop_bit 6 (hd (chunk_record c)) = 0" for c
  proof -
    have lc: "length c = 32" by (rule vm_wf_chunks[OF assms c])
    have sp: "popcount c < 32" using sparse_record_iff[OF lc] cat by simp
    have tl: "map unat (tl (chunk_record c)) = one_positions c"
      using sp unat_payload_one_positions[of c] by (simp add: chunk_record_cases)
    have "one_positions c = filter (\<lambda>p. bit (c ! (p div 8)) (p mod 8)) [0..<256]"
      unfolding one_positions_def chunk_bit_def ..
    moreover have "\<forall>p \<in> set (one_positions c). p \<le> 255"
      by (auto simp: one_positions_def)
    moreover have "unat (hd (chunk_record c) AND 0x3F) = length (tl (chunk_record c))"
      using sp header_byte_length[of "popcount c" 0]
      by (simp add: chunk_record_cases unat_of_nat_u8 popcount_def[symmetric])
    ultimately show ?thesis
      unfolding tl using sorted_one_positions[of c] by simp
  qed
  with fr ex show ?thesis by blast
qed

text \<open>
  Witness for C7: the sparse bucket of the repository's tests, with bits 1, 3, 5, 7, 20, 26
  and 248 set.
\<close>

theorem sparse_payload_ascending_witness:
  "vm_wf (context_32 ([0xAA, 0, 0x10, 0x04] @ replicate 27 0 @ [0x01])) \<and>
   compressed_frame (vitemap_compress (context_32 ([0xAA, 0, 0x10, 0x04] @ replicate 27 0 @ [0x01])) 32) =
     Some [0x20, 0, 0, 0, 7, 1, 3, 5, 7, 20, 26, 248] \<and>
   sorted_wrt (<) (map unat (tl (chunk_record ([0xAA, 0, 0x10, 0x04] @ replicate 27 0 @ [0x01]))))"
proof -
  let ?x = "[0xAA, 0, 0x10, 0x04] @ replicate 27 0 @ [0x01 :: u8]"
  let ?vm = "context_32 ?x"
  have wf: "vm_wf ?vm"
    by (rule context_32_wf) simp
  have ev: "le_bytes 4 (32 :: u32) @
      concat (map chunk_record (chunks (input ?vm) (unat (num_buckets ?vm)))) =
      [0x20, 0, 0, 0, 7, 1, 3, 5, 7, 20, 26, 248]"
    by code_simp
  have mem: "?x \<in> set (chunks (input ?vm) (unat (num_buckets ?vm)))"
    by (simp add: context_32_def chunks_def chunk_at_def)
  have cat: "drop_bit 6 (hd (chunk_record ?x)) = 0"
    by code_simp
  show ?thesis
    using sparse_payload_ascending[OF wf, of 32] wf mem cat unfolding ev by blast
qed

subsection \<open>C6: the size prefix and the peek\<close>

text \<open>
  Claim C6, as the specification states it: for every compress of declared size \<open>N\<close> the
  first four bytes of the frame are \<open>N\<close>, and \<^verbatim>\<open>vitemap_extract_decompressed_sizes\<close> on
  the frame returns \<open>data_size = N\<close> and \<open>buffer_size = ceil(N / 32) * 32\<close>. The encoder
  accepts every 32-bit size; for \<open>N = 0xFFFFFFFF\<close> the frame starts with \<open>FF FF FF FF\<close> and
  the peek returns \<open>buffer_size = 0\<close>, while \<open>ceil(N / 32) * 32\<close> is \<open>2^32\<close>.
\<close>

theorem peek_wraps_for_largest_size:
  "vm_wf (context_32 (replicate 32 0)) \<and>
   compressed_frame (vitemap_compress (context_32 (replicate 32 0)) 0xFFFFFFFF) =
     Some [0xFF, 0xFF, 0xFF, 0xFF, 0x00] \<and>
   vitemap_extract_decompressed_sizes [0xFF, 0xFF, 0xFF, 0xFF, 0x00] = Some (0xFFFFFFFF, 0) \<and>
   (unat (0xFFFFFFFF :: u32) + 31) div 32 * 32 = 4294967296"
proof -
  have "vm_wf (context_32 (replicate 32 0))"
    by (rule context_32_wf) simp
  moreover have "compressed_frame (vitemap_compress (context_32 (replicate 32 0)) 0xFFFFFFFF) =
     Some [0xFF, 0xFF, 0xFF, 0xFF, 0x00]"
    by code_simp
  moreover have "vitemap_extract_decompressed_sizes [0xFF, 0xFF, 0xFF, 0xFF, 0x00] =
      Some (0xFFFFFFFF, 0)"
    by code_simp
  moreover have "(unat (0xFFFFFFFF :: u32) + 31) div 32 * 32 = 4294967296"
    by simp
  ultimately show ?thesis by blast
qed

text \<open>
  Claim C6, amended: for every compress of declared size \<open>N\<close> the first four bytes of the
  frame, read as a little-endian 32-bit number, are \<open>N\<close>, and
  \<^verbatim>\<open>vitemap_extract_decompressed_sizes\<close> on the frame returns \<open>data_size = N\<close> and
  \<open>buffer_size = ceil(N / 32) * 32\<close> reduced modulo \<open>2^32\<close>: that is \<open>ceil(N / 32) * 32\<close> for
  every \<open>N \<le> 2^32 - 32\<close>, in particular for every \<open>N \<le> max_size\<close>.
\<close>

theorem size_prefix_and_peek:
  assumes "vm_wf vm"
  shows "\<exists>vm' n buffer_size.
           vitemap_compress vm sz = Some (vm', n) \<and> 4 \<le> unat n \<and>
           load_u32 (take (unat n) (output vm')) 0 = Some sz \<and>
           vitemap_extract_decompressed_sizes (take (unat n) (output vm')) =
             Some (sz, buffer_size) \<and>
           unat buffer_size = ((unat sz + 31) div 32 * 32) mod 2 ^ 32 \<and>
           (unat sz + 31 < 2 ^ 32 \<longrightarrow> unat buffer_size = (unat sz + 31) div 32 * 32) \<and>
           (sz \<le> max_size vm \<longrightarrow> unat buffer_size = (unat sz + 31) div 32 * 32)"
proof -
  let ?F = "frame sz (chunks (input vm) (unat (num_buckets vm)))"
  let ?bs = "(sz div 32 + (if sz mod 32 > 0 then 1 else 0)) * 32"
  obtain out' h' where c: "vitemap_compress vm sz =
      Some (vm\<lparr>output := out', helper_bucket := h'\<rparr>, of_nat (length ?F))"
    and t: "take (length ?F) out' = ?F"
    and u: "unat (of_nat (length ?F) :: u32) = length ?F"
    using vitemap_compress_frame[OF assms, of sz] by blast
  let ?vm' = "vm\<lparr>output := out', helper_bucket := h'\<rparr>"
  have fr: "take (unat (of_nat (length ?F) :: u32)) (output ?vm') = ?F"
    unfolding u by (simp add: t)
  have 1: "4 \<le> unat (of_nat (length ?F) :: u32)"
    unfolding u by (simp add: length_frame)
  have 2: "load_u32 ?F 0 = Some sz"
    by (rule load_u32_frame)
  have 3: "vitemap_extract_decompressed_sizes ?F = Some (sz, ?bs)"
    by (simp add: vitemap_extract_decompressed_sizes_def load_u32_frame Let_def)
  have 4: "unat ?bs = ((unat sz + 31) div 32 * 32) mod 2 ^ 32"
    by (rule peek_buffer_size_mod)
  have 5: "unat ?bs = (unat sz + 31) div 32 * 32" if "unat sz + 31 < 2 ^ 32"
    by (rule peek_buffer_size[OF that])
  have 6: "unat ?bs = (unat sz + 31) div 32 * 32" if "sz \<le> max_size vm"
    by (rule 5) (rule vm_wf_size_bound[OF assms that])
  show ?thesis
    apply (rule exI[of _ ?vm'], rule exI[of _ "of_nat (length ?F)"], rule exI[of _ ?bs])
    unfolding fr using c 1 2 3 4 5 6 by blast
qed

text \<open>Witness for C6: a two-chunk context and the declared size 33.\<close>

theorem size_prefix_and_peek_witness:
  "vm_wf (context_64 (replicate 33 0x01 @ replicate 31 0)) \<and>
   (33 :: u32) \<le> max_size (context_64 (replicate 33 0x01 @ replicate 31 0)) \<and>
   unat (33 :: u32) + 31 < 2 ^ 32 \<and>
   (\<exists>vm' n buffer_size.
      vitemap_compress (context_64 (replicate 33 0x01 @ replicate 31 0)) 33 = Some (vm', n) \<and>
      load_u32 (take (unat n) (output vm')) 0 = Some 33 \<and>
      vitemap_extract_decompressed_sizes (take (unat n) (output vm')) = Some (33, buffer_size) \<and>
      unat buffer_size = 64)"
proof -
  let ?vm = "context_64 (replicate 33 0x01 @ replicate 31 0)"
  have wf: "vm_wf ?vm"
    by (rule context_64_wf) simp
  have le: "(33 :: u32) \<le> max_size ?vm"
    by (simp add: context_64_def)
  have b: "unat (33 :: u32) + 31 < 2 ^ 32"
    by simp
  have "(unat (33 :: u32) + 31) div 32 * 32 = 64"
    by simp
  then show ?thesis
    using size_prefix_and_peek[OF wf, of 33] wf le b by fastforce
qed


subsection \<open>C10: the frame effect of compression\<close>



subsection \<open>C4: a declared size above the bound\<close>





subsection \<open>C3: the reserved category\<close>

text \<open>
  Claim C3, as the specification states it: a stream with a record whose header has category
  bits \<open>11\<close> makes \<^verbatim>\<open>vitemap_decompress\<close> fail with a corrupt-stream error. The decoder
  returns normally on such a stream and leaves the output chunk as it was.
\<close>

theorem reserved_category_accepted:
  "vitemap_decompress [0x20, 0, 0, 0, 0xC0] 5 (replicate 32 0xEE) = Some (replicate 32 0xEE)"
  by code_simp


text \<open>
  Claim C3, amended: \<^verbatim>\<open>vitemap_decompress\<close> has no error result and does not reject a
  record whose header has category bits \<open>11\<close>: it writes nothing into the 32-byte output chunk
  of that record, advances the input cursor by one plus the length field and the output cursor
  by 32, and goes on decoding.
\<close>

theorem reserved_category_skipped:
  assumes "cd < endp" "cd < length compressed_data" "drop_bit 6 (compressed_data ! cd) = 3"
  shows "decompress_loop compressed_data endp cd decompressed_data dd =
         decompress_loop compressed_data endp
           (cd + 1 + unat (compressed_data ! cd AND 0x3F)) decompressed_data (dd + 32)"
  using assms
  by (subst decompress_loop.simps) (simp add: read_u8_def Let_def)


text \<open>Witness for C3: a stream whose only record has header \<open>0xC1\<close> and one payload byte.\<close>

theorem reserved_category_skipped_witness:
  "vitemap_decompress [0x20, 0, 0, 0, 0xC1, 0x07] 6 (replicate 32 0xEE) = Some (replicate 32 0xEE)"
proof -
  let ?s = "[0x20, 0, 0, 0, 0xC1, 0x07 :: u8]"
  have "decompress_loop ?s 6 4 (replicate 32 0xEE) 0 =
      decompress_loop ?s 6 (4 + 1 + unat (?s ! 4 AND 0x3F)) (replicate 32 0xEE) (0 + 32)"
    by (rule reserved_category_skipped) simp_all
  also have "\<dots> = Some (replicate 32 0xEE)"
    by (rule decompress_loop_done) simp
  finally show ?thesis
    by (simp add: vitemap_decompress_def)
qed


subsection \<open>C8: inversion\<close>

text \<open>
  Claim C8: for every payload \<open>P\<close> of \<open>k \<le> 31\<close> positions, the 32-byte chunk that the
  decoder produces for a record with category bits \<open>01\<close> and payload \<open>P\<close> is the bitwise
  complement of the chunk it produces for a record with category bits \<open>00\<close> and the same
  payload; the latter has exactly the bits at the positions in \<open>P\<close> set.
\<close>

theorem inversion_commutes:
  assumes "length pre = 4" "length P = k" "k \<le> 31" "32 \<le> length out"
  shows "\<exists>c0. length c0 = 32 \<and>
           (\<forall>p<256. bit (c0 ! (p div 8)) (p mod 8) \<longleftrightarrow> p \<in> unat ` set P) \<and>
           vitemap_decompress (pre @ header_byte 0 k # P) (of_nat (5 + k)) out =
             Some (c0 @ drop 32 out) \<and>
           vitemap_decompress (pre @ header_byte 1 k # P) (of_nat (5 + k)) out =
             Some (map NOT c0 @ drop 32 out)"
proof -
  have k64: "k < 64" using assms(3) by simp
  have sz: "unat (of_nat (5 + k) :: u32) = 5 + k"
    by (rule unat_of_nat_u32) (use assms(3) in simp)
  have lenf: "unat (header_byte cat k AND 0x3F) = k" for cat
    using assms(3) by (simp add: header_byte_length[OF k64] unat_of_nat_u8)
  let ?s0 = "pre @ header_byte 0 k # P" and ?s1 = "pre @ header_byte 1 k # P"
  have h0: "?s0 ! 4 = header_byte 0 k" and h1: "?s1 ! 4 = header_byte 1 k"
    using assms(1) by (simp_all add: nth_append)
  have p0: "take k (drop (4 + 1) ?s0) = P" and p1: "take k (drop (4 + 1) ?s1) = P"
    using assms(1,2) by simp_all
  have c0: "drop_bit 6 (?s0 ! 4) = 0"
    unfolding h0 using header_byte_category[OF k64, of 0] by simp
  have c1: "drop_bit 6 (?s1 ! 4) = 1"
    unfolding h1 using header_byte_category[OF k64, of 1] by simp
  obtain R0 where s0: "scattered R0 (unat ` set P)"
    and d0: "decompress_loop ?s0 (5 + k) 4 out 0 =
      decompress_loop ?s0 (5 + k) (4 + 1 + k) (take 0 out @ R0 @ drop (0 + 32) out) (0 + 32)"
    using decompress_step_sparse[of 4 "5 + k" ?s0 0 out, OF _ _ c0] assms
    unfolding h0 lenf p0 by auto
  obtain R1 where s1: "scattered R1 (unat ` set P)"
    and d1: "decompress_loop ?s1 (5 + k) 4 out 0 =
      decompress_loop ?s1 (5 + k) (4 + 1 + k) (take 0 out @ map NOT R1 @ drop (0 + 32) out) (0 + 32)"
    using decompress_step_dense[of 4 "5 + k" ?s1 0 out, OF _ _ c1] assms
    unfolding h1 lenf p1 by auto
  have l0: "length R0 = 32" and l1: "length R1 = 32"
    using s0 s1 by (simp_all add: scattered_def)
  have eq: "R1 = R0"
    by (rule chunk_eqI[OF l1 l0]) (use s0 s1 in \<open>simp add: scattered_def\<close>)
  have "vitemap_decompress ?s0 (of_nat (5 + k)) out = Some (R0 @ drop 32 out)"
    unfolding vitemap_decompress_def sz d0 by (simp add: decompress_loop_done)
  moreover have "vitemap_decompress ?s1 (of_nat (5 + k)) out = Some (map NOT R0 @ drop 32 out)"
    unfolding vitemap_decompress_def sz d1 eq by (simp add: decompress_loop_done)
  moreover have "\<forall>p<256. bit (R0 ! (p div 8)) (p mod 8) \<longleftrightarrow> p \<in> unat ` set P"
    using scattered_bits[OF s0] by blast
  ultimately show ?thesis using l0 by blast
qed


text \<open>Witness for C8: the payload \<open>07 F8\<close> (positions 7 and 248).\<close>

theorem inversion_commutes_witness:
  "vitemap_decompress [0x20, 0, 0, 0, 0x02, 0x07, 0xF8] 7 (replicate 32 0) =
     Some ([0x80] @ replicate 30 0 @ [0x01]) \<and>
   vitemap_decompress [0x20, 0, 0, 0, 0x42, 0x07, 0xF8] 7 (replicate 32 0) =
     Some (map NOT ([0x80] @ replicate 30 0 @ [0x01]))"
proof -
  have ev: "vitemap_decompress [0x20, 0, 0, 0, 0x02, 0x07, 0xF8] 7 (replicate 32 0) =
      Some ([0x80] @ replicate 30 0 @ [0x01])"
    by code_simp
  have h: "header_byte 0 2 = 0x02" "header_byte (Suc 0) 2 = 0x42"
    by (simp_all add: header_byte_def)
  from inversion_commutes[of "[0x20, 0, 0, 0]" "[0x07, 0xF8]" 2 "replicate 32 0"]
  obtain c0 where
    a: "vitemap_decompress [0x20, 0, 0, 0, 0x02, 0x07, 0xF8] 7 (replicate 32 0) = Some c0"
    and b: "vitemap_decompress [0x20, 0, 0, 0, 0x42, 0x07, 0xF8] 7 (replicate 32 0) =
      Some (map NOT c0)"
    by (auto simp: h)
  from a ev have "c0 = [0x80] @ replicate 30 0 @ [0x01]"
    by simp
  with ev b show ?thesis by simp
qed


subsection \<open>C1: the round trip\<close>

text \<open>
  Claim C1: for an input of \<open>N \<le> max_size\<close> bytes, decompressing the frame of
  \<^verbatim>\<open>vitemap_compress(vm, N)\<close> writes exactly \<open>ceil(N / 32) * 32\<close> bytes, the input followed
  by zero padding. The encoder emits a record for each of the \<open>num_buckets\<close> chunks of the
  context, whatever \<open>N\<close> is, so for \<open>N \<le> max_size - 32\<close> the decoder writes more: the
  context of \<^verbatim>\<open>vitemap_create(64)\<close> with a 32-byte input and \<open>N = 32\<close> gives a frame of two
  records; \<^verbatim>\<open>vitemap_extract_decompressed_sizes\<close> reports a buffer of 32 bytes for it; the
  decoder leaves a buffer of that size (no result in the model) and writes 64 bytes into a
  larger one. Lemma \<open>round_trip_exact_size\<close> above is the round trip for the contexts with
  \<open>ceil(N / 32) = num_buckets\<close>.
\<close>

theorem round_trip_short_input:
  "vitemap_create (\<lambda>_. True) 64 = Some (context_64 (replicate 64 0)) \<and>
   vitemap_compress (context_64 ((replicate 32 0)[15 := 0x10] @ replicate 32 0)) 32 =
     Some ((context_64 ((replicate 32 0)[15 := 0x10] @ replicate 32 0))
             \<lparr>output := [0x20, 0, 0, 0, 0x01, 0x7C, 0x00] @ replicate 157 0\<rparr>, 7) \<and>
   vitemap_extract_decompressed_sizes [0x20, 0, 0, 0, 0x01, 0x7C, 0x00] = Some (32, 32) \<and>
   vitemap_decompress [0x20, 0, 0, 0, 0x01, 0x7C, 0x00] 7 (replicate 32 0xEE) = None \<and>
   vitemap_decompress [0x20, 0, 0, 0, 0x01, 0x7C, 0x00] 7 (replicate 64 0xEE) =
     Some ((replicate 32 0)[15 := 0x10] @ replicate 32 0)"
  by code_simp


end
